theory Spec2Isabelle
  imports Complex_Main "HOL-Library.Word" "HOL-Library.Monad_Syntax"
begin

section \<open>Samples and bytes\<close>

text \<open>
  \<^verbatim>\<open>graphics/RGBAImage.h\<close> converts between channel arrays of \<^verbatim>\<open>double\<close> samples and
  interleaved buffers of \<^verbatim>\<open>unsigned char\<close>. A finite \<^verbatim>\<open>double\<close> is modelled by the rational
  number it denotes. Every arithmetic result is rounded to IEEE-754 binary64 (53 significant
  bits, exponent of the last place at least \<open>-1074\<close>) to nearest, ties to even, which is the
  default rounding mode of the C++ runtime. Infinities and NaN are not modelled: \<open>fl\<close> rounds
  as if the exponent had no upper bound, so the model is the machine's for results below
  \<open>2^1024\<close> in magnitude.
\<close>

type_synonym double = rat

type_synonym byte = "8 word"

definition pow2 :: "int \<Rightarrow> rat" where
  "pow2 e = (if 0 \<le> e then 2 ^ nat e else 1 / 2 ^ nat (- e))"

text \<open>The binary exponent \<open>\<lfloor>log\<^sub>2 x\<rfloor>\<close> of a positive rational, by repeated halving or doubling.\<close>

function expo_hi :: "rat \<Rightarrow> int" where
  "expo_hi x = (if x < 2 then 0 else 1 + expo_hi (x / 2))"
  by pat_completeness auto
termination
proof (relation "measure (\<lambda>x. nat \<lfloor>x\<rfloor>)")
  show "wf (measure (\<lambda>x::rat. nat \<lfloor>x\<rfloor>))" by simp
next
  fix x :: rat
  assume "\<not> x < 2"
  then have x: "2 \<le> x" by simp
  have "x / 2 < of_int \<lfloor>x\<rfloor>"
  proof -
    have "x < of_int \<lfloor>x\<rfloor> + 1" by linarith
    moreover have "(2::rat) \<le> of_int \<lfloor>x\<rfloor>" using x by (simp add: le_floor_iff)
    ultimately show ?thesis by linarith
  qed
  then have "\<lfloor>x / 2\<rfloor> < \<lfloor>x\<rfloor>" by (simp add: floor_less_iff)
  moreover have "0 \<le> \<lfloor>x / 2\<rfloor>" using x by simp
  ultimately have "nat \<lfloor>x / 2\<rfloor> < nat \<lfloor>x\<rfloor>" by linarith
  then show "(x / 2, x) \<in> measure (\<lambda>x. nat \<lfloor>x\<rfloor>)" by (simp only: in_measure)
qed

function expo_lo :: "rat \<Rightarrow> int" where
  "expo_lo x = (if x \<le> 0 \<or> 1 \<le> x then 0 else expo_lo (2 * x) - 1)"
  by pat_completeness auto
termination
proof (relation "measure (\<lambda>x. nat \<lceil>1 / x\<rceil>)")
  show "wf (measure (\<lambda>x::rat. nat \<lceil>1 / x\<rceil>))" by simp
next
  fix x :: rat
  assume "\<not> (x \<le> 0 \<or> 1 \<le> x)"
  then have x: "0 < x" "x < 1" by simp_all
  define y where "y = 1 / x"
  have y: "1 < y" using x by (simp add: y_def)
  have "y / 2 \<le> of_int (\<lceil>y\<rceil> - 1)"
  proof -
    have "y \<le> of_int \<lceil>y\<rceil>" by linarith
    moreover have "(2::rat) \<le> of_int \<lceil>y\<rceil>"
    proof -
      have "1 < \<lceil>y\<rceil>" using y by (simp add: less_ceiling_iff)
      then have "2 \<le> \<lceil>y\<rceil>" by simp
      then show ?thesis by (metis of_int_le_iff of_int_numeral)
    qed
    ultimately have "y / 2 \<le> of_int \<lceil>y\<rceil> - 1" by linarith
    then show ?thesis by simp
  qed
  then have "\<lceil>y / 2\<rceil> \<le> \<lceil>y\<rceil> - 1" by (simp only: ceiling_le_iff)
  moreover have "0 < \<lceil>y\<rceil>" using y by simp
  ultimately have "nat \<lceil>y / 2\<rceil> < nat \<lceil>y\<rceil>" by linarith
  moreover have "1 / (2 * x) = y / 2" by (simp add: y_def)
  ultimately show "(2 * x, x) \<in> measure (\<lambda>x. nat \<lceil>1 / x\<rceil>)"
    by (simp only: in_measure y_def)
qed

definition expo :: "rat \<Rightarrow> int" where
  "expo x = (if 1 \<le> x then expo_hi x else expo_lo x)"

text \<open>Rounding to the nearest integer, a tie going to the even neighbour.\<close>

definition rne :: "rat \<Rightarrow> int" where
  "rne x = (let f = \<lfloor>x\<rfloor>; d = x - of_int f in
     if d < 1 / 2 then f else if 1 / 2 < d then f + 1 else if even f then f else f + 1)"

text \<open>
  Rounding of a positive rational to binary64: the unit in the last place is
  \<open>2^(e - 52)\<close> for a normal number of exponent \<open>e\<close>, and \<open>2^(-1074)\<close> below \<open>2^(-1022)\<close>.
\<close>

definition fl_pos :: "rat \<Rightarrow> rat" where
  "fl_pos x = (let u = pow2 (max (expo x) (- 1022) - 52) in of_int (rne (x / u)) * u)"

definition fl :: "rat \<Rightarrow> double" where
  "fl x = (if x = 0 then 0 else if x < 0 then - fl_pos (- x) else fl_pos x)"

text \<open>The product of two doubles, as \<^verbatim>\<open>a * b\<close> computes it.\<close>

definition dmul :: "double \<Rightarrow> double \<Rightarrow> double" where
  "dmul a b = fl (a * b)"

text \<open>
  An \<^verbatim>\<open>unsigned char\<close> operand of a product is promoted to \<^verbatim>\<open>int\<close> and converted to
  \<^verbatim>\<open>double\<close>; the conversion is exact.
\<close>

definition byte_to_double :: "byte \<Rightarrow> double" where
  "byte_to_double b = of_nat (unat b)"

text \<open>
  \<^verbatim>\<open>lrint\<close> rounds to an integer in the current rounding mode (to nearest, ties to even).
  The model's result is unbounded; the C function is unspecified outside \<^verbatim>\<open>long\<close>.
\<close>

definition lrint :: "double \<Rightarrow> int" where
  "lrint x = rne x"

text \<open>The cast \<^verbatim>\<open>(unsigned char)\<close> of a \<^verbatim>\<open>long\<close> keeps the low eight bits.\<close>

definition to_uchar :: "int \<Rightarrow> byte" where
  "to_uchar l = word_of_int l"

text \<open>The literal \<^verbatim>\<open>0.003921569\<close> of the decoder, read as the nearest double.\<close>

definition decode_scale :: double where
  "decode_scale = fl (3921569 / 1000000000)"

text \<open>The decoder's expression \<^verbatim>\<open>inBytes[ byteIndex++ ] * 0.003921569\<close> on one byte.\<close>

definition decode_sample :: "byte \<Rightarrow> double" where
  "decode_sample b = dmul (byte_to_double b) decode_scale"

text \<open>The encoder's expression \<^verbatim>\<open>(unsigned char)( lrint( channel[p] * 255 ) )\<close> on one sample.\<close>

definition encode_sample :: "double \<Rightarrow> byte" where
  "encode_sample s = to_uchar (lrint (dmul s 255))"

section \<open>Memory and loops\<close>

text \<open>
  Arrays are lists. A read or a write outside an array is undefined behaviour in the
  source; the model returns \<open>None\<close> there, and \<open>None\<close> propagates to the caller's result.
  The source counts pixels and bytes in \<^verbatim>\<open>int\<close>; the model counts in natural numbers, which
  is the same arithmetic as long as no size, count or index passes \<open>INT_MAX\<close>. Signed overflow
  is undefined in the source, so the theorems about the encoder's bytes and the decoder's
  samples assume that the dimensions, the pixel count and the byte count fit an \<^verbatim>\<open>int\<close>.
\<close>

definition INT_MAX :: nat where
  "INT_MAX = 2147483647"

definition load :: "'a list \<Rightarrow> nat \<Rightarrow> 'a option" where
  "load xs i = (if i < length xs then Some (xs ! i) else None)"

definition store :: "'a list \<Rightarrow> nat \<Rightarrow> 'a \<Rightarrow> 'a list option" where
  "store xs i v = (if i < length xs then Some (xs[i := v]) else None)"

text \<open>\<^verbatim>\<open>memcpy( dst, src, n * sizeof( double ) )\<close> on two arrays of doubles.\<close>

definition memcpy :: "'a list \<Rightarrow> 'a list \<Rightarrow> nat \<Rightarrow> 'a list option" where
  "memcpy dst src n =
     (if n \<le> length dst \<and> n \<le> length src then Some (take n src @ drop n dst) else None)"

text \<open>
  A counting loop \<^verbatim>\<open>for( int i=0; i<n; i++ ) body\<close> runs its body over \<open>[0..<n]\<close>, threading
  the state the body changes; it stops with \<open>None\<close> as soon as the body does.
\<close>

primrec for_each :: "nat list \<Rightarrow> (nat \<Rightarrow> 's \<Rightarrow> 's option) \<Rightarrow> 's \<Rightarrow> 's option" where
  "for_each [] body s = Some s"
| "for_each (j # js) body s = (case body j s of None \<Rightarrow> None | Some s' \<Rightarrow> for_each js body s')"

section \<open>The image container\<close>

text \<open>
  Modelled from the spec: the class \<^verbatim>\<open>Image\<close> of \<^verbatim>\<open>Image.h\<close>, which the file includes and
  which is not part of the sources. The spec (section 3 and section 6) gives it a width, a
  height, a channel count and one sample array of length width times height per channel, in
  row-major pixel order, and a constructor taking width, height, channel count and a flag
  that asks for zero-initialised channels. Dimensions are natural numbers: the container
  requires them non-negative.
\<close>

record Image =
  mWide :: nat
  mHigh :: nat
  mNumPixels :: nat
  mNumChannels :: nat
  mChannels :: "double list list"

text \<open>
  Modelled from the spec: the container's invariant, every channel holding exactly
  width times height samples.
\<close>

definition wf_Image :: "Image \<Rightarrow> bool" where
  "wf_Image im \<longleftrightarrow>
     mNumPixels im = mWide im * mHigh im \<and>
     length (mChannels im) = mNumChannels im \<and>
     list_all (\<lambda>ch. length ch = mNumPixels im) (mChannels im)"

text \<open>
  Modelled from the spec: the constructor \<^verbatim>\<open>Image( w, h, n, inStartZero )\<close>. Without the
  flag the channels are allocated and left as they are; \<open>heap c p\<close> is what the fresh
  memory of channel \<open>c\<close> holds at sample \<open>p\<close>.
\<close>

definition new_Image :: "(nat \<Rightarrow> nat \<Rightarrow> double) \<Rightarrow> nat \<Rightarrow> nat \<Rightarrow> nat \<Rightarrow> bool \<Rightarrow> Image" where
  "new_Image heap inWidth inHeight inNumChannels inStartZero =
     \<lparr> mWide = inWidth, mHigh = inHeight, mNumPixels = inWidth * inHeight,
       mNumChannels = inNumChannels,
       mChannels = map (\<lambda>c. map (\<lambda>p. if inStartZero then 0 else heap c p)
                                  [0..<inWidth * inHeight])
                       [0..<inNumChannels] \<rparr>"

text \<open>
  Modelled from the spec: \<^verbatim>\<open>getChannel( c )\<close> hands out the sample array of channel \<open>c\<close>;
  asking for a channel the image does not have is undefined.
\<close>

definition getChannel :: "Image \<Rightarrow> nat \<Rightarrow> double list option" where
  "getChannel im c = load (mChannels im) c"

text \<open>A write \<^verbatim>\<open>channel[i] = v\<close> through the pointer that \<^verbatim>\<open>getChannel( c )\<close> returned.\<close>

definition store_sample :: "double list list \<Rightarrow> nat \<Rightarrow> nat \<Rightarrow> double \<Rightarrow> double list list option" where
  "store_sample chs c i v =
     (case load chs c of None \<Rightarrow> None
      | Some ch \<Rightarrow> (case store ch i v of None \<Rightarrow> None | Some ch' \<Rightarrow> store chs c ch'))"

text \<open>
  Modelled from the spec: a channel filter is an opaque transformation of one channel's
  sample array, and \<^verbatim>\<open>Image::filter( inFilter, inChannel )\<close> applies it to the named channel.
\<close>

type_synonym ChannelFilter = "double list \<Rightarrow> double list"

definition Image_filter :: "ChannelFilter \<Rightarrow> nat \<Rightarrow> Image \<Rightarrow> Image option" where
  "Image_filter inFilter inChannel im =
     (case getChannel im inChannel of None \<Rightarrow> None
      | Some ch \<Rightarrow> map_option (\<lambda>chs. im\<lparr>mChannels := chs\<rparr>)
                     (store (mChannels im) inChannel (inFilter ch)))"

section \<open>The encoder: \<^verbatim>\<open>RGBAImage::getRGBABytes\<close>\<close>

text \<open>
  One pass of the loop of the branch \<^verbatim>\<open>numChannels > 3\<close>: four reads, four writes at
  \<^verbatim>\<open>bytes[i++]\<close>. The state is the buffer and the running index \<open>i\<close>.
\<close>

definition rgba_pixel ::
  "double list \<Rightarrow> double list \<Rightarrow> double list \<Rightarrow> double list \<Rightarrow> nat \<Rightarrow>
   byte list \<times> nat \<Rightarrow> (byte list \<times> nat) option" where
  "rgba_pixel channelZero channelOne channelTwo channelThree p st =
     (case st of (bytes, i) \<Rightarrow> do {
        s0 \<leftarrow> load channelZero p;
        bytes0 \<leftarrow> store bytes i (encode_sample s0);
        s1 \<leftarrow> load channelOne p;
        bytes1 \<leftarrow> store bytes0 (i + 1) (encode_sample s1);
        s2 \<leftarrow> load channelTwo p;
        bytes2 \<leftarrow> store bytes1 (i + 2) (encode_sample s2);
        s3 \<leftarrow> load channelThree p;
        bytes3 \<leftarrow> store bytes2 (i + 3) (encode_sample s3);
        Some (bytes3, i + 4) })"

text \<open>One pass of the loop of the other branch: the fourth byte is the constant 255.\<close>

definition rgb_pixel ::
  "double list \<Rightarrow> double list \<Rightarrow> double list \<Rightarrow> nat \<Rightarrow>
   byte list \<times> nat \<Rightarrow> (byte list \<times> nat) option" where
  "rgb_pixel channelZero channelOne channelTwo p st =
     (case st of (bytes, i) \<Rightarrow> do {
        s0 \<leftarrow> load channelZero p;
        bytes0 \<leftarrow> store bytes i (encode_sample s0);
        s1 \<leftarrow> load channelOne p;
        bytes1 \<leftarrow> store bytes0 (i + 1) (encode_sample s1);
        s2 \<leftarrow> load channelTwo p;
        bytes2 \<leftarrow> store bytes1 (i + 2) (encode_sample s2);
        bytes3 \<leftarrow> store bytes2 (i + 3) 255;
        Some (bytes3, i + 4) })"

text \<open>
  The static \<^verbatim>\<open>getRGBABytes( Image *inImage )\<close>. \<open>mem\<close> is the content of the buffer that
  \<^verbatim>\<open>new unsigned char[ numBytes ]\<close> returns.
\<close>

definition getRGBABytes :: "(nat \<Rightarrow> byte) \<Rightarrow> Image \<Rightarrow> byte list option" where
  "getRGBABytes mem inImage =
     (let numPixels = mWide inImage * mHigh inImage;
          numChannels = mNumChannels inImage;
          numBytes = numPixels * 4;
          bytes = map mem [0..<numBytes]
      in do {
        channelZero \<leftarrow> getChannel inImage 0;
        channelOne \<leftarrow> getChannel inImage 1;
        channelTwo \<leftarrow> getChannel inImage 2;
        if numChannels > 3 then do {
          channelThree \<leftarrow> getChannel inImage 3;
          map_option fst
            (for_each [0..<numPixels]
               (rgba_pixel channelZero channelOne channelTwo channelThree) (bytes, 0)) }
        else
          map_option fst
            (for_each [0..<numPixels] (rgb_pixel channelZero channelOne channelTwo) (bytes, 0))
      })"

text \<open>The member \<^verbatim>\<open>getRGBABytes()\<close>: \<^verbatim>\<open>return RGBAImage::getRGBABytes( this );\<close>\<close>

definition getRGBABytes_member :: "(nat \<Rightarrow> byte) \<Rightarrow> Image \<Rightarrow> byte list option" where
  "getRGBABytes_member mem this = getRGBABytes mem this"

section \<open>The decoder: \<^verbatim>\<open>RGBAImage::getImageFromBytes\<close>\<close>

text \<open>
  The three branches share the shape of their double loop: \<open>y\<close> over the rows, \<open>x\<close> within
  a row, and a counter \<^verbatim>\<open>outputRow\<close> incremented after each row. The state of the outer loop
  is the channels of the fresh image and \<^verbatim>\<open>outputRow\<close>.
\<close>

definition scan_rows ::
  "(nat \<Rightarrow> nat \<Rightarrow> nat \<Rightarrow> double list list \<Rightarrow> double list list option) \<Rightarrow>
   nat \<Rightarrow> nat \<Rightarrow> double list list \<Rightarrow> double list list option" where
  "scan_rows pixel inWidth inHeight chs =
     map_option fst
       (for_each [0..<inHeight]
          (\<lambda>y st. case st of (chs', outputRow) \<Rightarrow>
             map_option (\<lambda>chs''. (chs'', outputRow + 1))
               (for_each [0..<inWidth] (pixel y outputRow) chs'))
          (chs, 0))"

text \<open>The unrolled body for three channels.\<close>

definition pixel_3 ::
  "byte list \<Rightarrow> nat \<Rightarrow> nat \<Rightarrow> nat \<Rightarrow> nat \<Rightarrow> double list list \<Rightarrow> double list list option" where
  "pixel_3 inBytes inWidth y outputRow x chs =
     (let outputPixelIndex = outputRow * inWidth + x;
          regionPixelIndex = y * inWidth + x;
          byteIndex = regionPixelIndex * 3
      in do {
        b0 \<leftarrow> load inBytes byteIndex;
        chs0 \<leftarrow> store_sample chs 0 outputPixelIndex (decode_sample b0);
        b1 \<leftarrow> load inBytes (byteIndex + 1);
        chs1 \<leftarrow> store_sample chs0 1 outputPixelIndex (decode_sample b1);
        b2 \<leftarrow> load inBytes (byteIndex + 2);
        store_sample chs1 2 outputPixelIndex (decode_sample b2) })"

text \<open>The unrolled body for four channels.\<close>

definition pixel_4 ::
  "byte list \<Rightarrow> nat \<Rightarrow> nat \<Rightarrow> nat \<Rightarrow> nat \<Rightarrow> double list list \<Rightarrow> double list list option" where
  "pixel_4 inBytes inWidth y outputRow x chs =
     (let outputPixelIndex = outputRow * inWidth + x;
          regionPixelIndex = y * inWidth + x;
          byteIndex = regionPixelIndex * 4
      in do {
        b0 \<leftarrow> load inBytes byteIndex;
        chs0 \<leftarrow> store_sample chs 0 outputPixelIndex (decode_sample b0);
        b1 \<leftarrow> load inBytes (byteIndex + 1);
        chs1 \<leftarrow> store_sample chs0 1 outputPixelIndex (decode_sample b1);
        b2 \<leftarrow> load inBytes (byteIndex + 2);
        chs2 \<leftarrow> store_sample chs1 2 outputPixelIndex (decode_sample b2);
        b3 \<leftarrow> load inBytes (byteIndex + 3);
        store_sample chs2 3 outputPixelIndex (decode_sample b3) })"

text \<open>
  The general body: a loop over the channels, \<^verbatim>\<open>channels[i][outputPixelIndex] =
  inBytes[ byteIndex++ ] * 0.003921569\<close>. The table \<^verbatim>\<open>channels\<close> holds \<^verbatim>\<open>im->getChannel( i )\<close>
  at \<open>i\<close>, so the write goes to channel \<open>i\<close> of the image. The state of the inner loop is the
  channels and \<^verbatim>\<open>byteIndex\<close>.
\<close>

definition channel_step ::
  "byte list \<Rightarrow> nat \<Rightarrow> nat \<Rightarrow> double list list \<times> nat \<Rightarrow> (double list list \<times> nat) option" where
  "channel_step inBytes outputPixelIndex i st =
     (case st of (chs, byteIndex) \<Rightarrow> do {
        b \<leftarrow> load inBytes byteIndex;
        chs' \<leftarrow> store_sample chs i outputPixelIndex (decode_sample b);
        Some (chs', byteIndex + 1) })"

definition pixel_n ::
  "byte list \<Rightarrow> nat \<Rightarrow> nat \<Rightarrow> nat \<Rightarrow> nat \<Rightarrow> nat \<Rightarrow> double list list \<Rightarrow>
   double list list option" where
  "pixel_n inBytes inWidth inNumChannels y outputRow x chs =
     (let outputPixelIndex = outputRow * inWidth + x;
          regionPixelIndex = y * inWidth + x;
          byteIndex = regionPixelIndex * inNumChannels
      in map_option fst
           (for_each [0..<inNumChannels] (channel_step inBytes outputPixelIndex)
              (chs, byteIndex)))"

text \<open>The three branches, each on the image \<^verbatim>\<open>new Image( inWidth, inHeight, inNumChannels, false )\<close>.\<close>

definition getImageFromBytes_3 ::
  "(nat \<Rightarrow> nat \<Rightarrow> double) \<Rightarrow> byte list \<Rightarrow> nat \<Rightarrow> nat \<Rightarrow> Image option" where
  "getImageFromBytes_3 heap inBytes inWidth inHeight =
     (let im = new_Image heap inWidth inHeight 3 False
      in map_option (\<lambda>chs. im\<lparr>mChannels := chs\<rparr>)
           (scan_rows (pixel_3 inBytes inWidth) inWidth inHeight (mChannels im)))"

definition getImageFromBytes_4 ::
  "(nat \<Rightarrow> nat \<Rightarrow> double) \<Rightarrow> byte list \<Rightarrow> nat \<Rightarrow> nat \<Rightarrow> Image option" where
  "getImageFromBytes_4 heap inBytes inWidth inHeight =
     (let im = new_Image heap inWidth inHeight 4 False
      in map_option (\<lambda>chs. im\<lparr>mChannels := chs\<rparr>)
           (scan_rows (pixel_4 inBytes inWidth) inWidth inHeight (mChannels im)))"

definition getImageFromBytes_general ::
  "(nat \<Rightarrow> nat \<Rightarrow> double) \<Rightarrow> byte list \<Rightarrow> nat \<Rightarrow> nat \<Rightarrow> nat \<Rightarrow> Image option" where
  "getImageFromBytes_general heap inBytes inWidth inHeight inNumChannels =
     (let im = new_Image heap inWidth inHeight inNumChannels False
      in map_option (\<lambda>chs. im\<lparr>mChannels := chs\<rparr>)
           (scan_rows (pixel_n inBytes inWidth inNumChannels) inWidth inHeight (mChannels im)))"

definition getImageFromBytes ::
  "(nat \<Rightarrow> nat \<Rightarrow> double) \<Rightarrow> byte list \<Rightarrow> nat \<Rightarrow> nat \<Rightarrow> nat \<Rightarrow> Image option" where
  "getImageFromBytes heap inBytes inWidth inHeight inNumChannels =
     (if inNumChannels = 3 then getImageFromBytes_3 heap inBytes inWidth inHeight
      else if inNumChannels = 4 then getImageFromBytes_4 heap inBytes inWidth inHeight
      else getImageFromBytes_general heap inBytes inWidth inHeight inNumChannels)"

section \<open>The RGBA image\<close>

text \<open>
  An \<^verbatim>\<open>RGBAImage\<close> is an \<^verbatim>\<open>Image\<close> constructed with four channels. The constructor
  \<^verbatim>\<open>RGBAImage( Image *inImage )\<close> asks the base constructor for zeroed channels only when
  the source has fewer than four, copies the first channels with \<^verbatim>\<open>memcpy\<close>, and fills the
  alpha channel with 1.0 when the source had none.
\<close>

definition copy_channel ::
  "Image \<Rightarrow> nat \<Rightarrow> nat \<Rightarrow> double list list \<Rightarrow> double list list option" where
  "copy_channel inImage numPixels c chs = do {
     inChannel \<leftarrow> getChannel inImage c;
     dst \<leftarrow> load chs c;
     dst' \<leftarrow> memcpy dst inChannel numPixels;
     store chs c dst' }"

definition RGBAImage_of_Image :: "(nat \<Rightarrow> nat \<Rightarrow> double) \<Rightarrow> Image \<Rightarrow> Image option" where
  "RGBAImage_of_Image heap inImage =
     (let this = new_Image heap (mWide inImage) (mHigh inImage) 4 (mNumChannels inImage < 4);
          minNumChannels = (if mNumChannels inImage < 4 then mNumChannels inImage else 4)
      in do {
        chs \<leftarrow> for_each [0..<minNumChannels] (copy_channel inImage (mNumPixels this))
                 (mChannels this);
        chs' \<leftarrow> (if minNumChannels < 4 then do {
                    alpha \<leftarrow> load chs 3;
                    alpha' \<leftarrow> for_each [0..<mNumPixels this] (\<lambda>i a. store a i 1) alpha;
                    store chs 3 alpha' }
                  else Some chs);
        Some (this\<lparr>mChannels := chs'\<rparr>) })"

text \<open>
  \<^verbatim>\<open>RGBAImage::filter( inFilter )\<close>: the loop \<^verbatim>\<open>for( int i=0; i<mNumChannels-1; i++ )\<close> over
  \<^verbatim>\<open>Image::filter( inFilter, i )\<close>, and the bridge \<^verbatim>\<open>filter( inFilter, inChannel )\<close>.
\<close>

definition RGBAImage_filter :: "ChannelFilter \<Rightarrow> Image \<Rightarrow> Image option" where
  "RGBAImage_filter inFilter this =
     for_each [0..<mNumChannels this - 1] (Image_filter inFilter) this"

definition RGBAImage_filter_channel :: "ChannelFilter \<Rightarrow> nat \<Rightarrow> Image \<Rightarrow> Image option" where
  "RGBAImage_filter_channel inFilter inChannel this = Image_filter inFilter inChannel this"

section \<open>Predicates of the proofs\<close>

text \<open>
  \<open>sample_at im k x y\<close> is channel \<open>k\<close> of the pixel in column \<open>x\<close> of row \<open>y\<close>: the
  container keeps each channel in row-major order.
\<close>

definition sample_at :: "Image \<Rightarrow> nat \<Rightarrow> nat \<Rightarrow> nat \<Rightarrow> double" where
  "sample_at im k x y = mChannels im ! k ! (y * mWide im + x)"

text \<open>
  Invariants of the decoder's loops: the pixels below \<open>k\<close> hold their decoded samples,
  and within pixel \<open>k\<close> the channels below \<open>i\<close> do.
\<close>

definition decoded_upto :: "byte list \<Rightarrow> nat \<Rightarrow> nat \<Rightarrow> nat \<Rightarrow> double list list \<Rightarrow> bool" where
  "decoded_upto inBytes n P k chs \<longleftrightarrow>
     length chs = n \<and>
     (\<forall>c<n. length (chs ! c) = P \<and> (\<forall>p<k. chs ! c ! p = decode_sample (inBytes ! (p * n + c))))"

definition decoded_partial :: "byte list \<Rightarrow> nat \<Rightarrow> nat \<Rightarrow> nat \<Rightarrow> nat \<Rightarrow> double list list \<Rightarrow> bool" where
  "decoded_partial inBytes n P k i chs \<longleftrightarrow>
     length chs = n \<and>
     (\<forall>c<n. length (chs ! c) = P \<and>
        (\<forall>p<k. chs ! c ! p = decode_sample (inBytes ! (p * n + c))) \<and>
        (c < i \<longrightarrow> chs ! c ! k = decode_sample (inBytes ! (k * n + c))))"

text \<open>The image the decoder returns on a buffer that holds all the bytes it reads.\<close>

definition decoded_image :: "byte list \<Rightarrow> nat \<Rightarrow> nat \<Rightarrow> nat \<Rightarrow> Image" where
  "decoded_image inBytes w h n =
     \<lparr> mWide = w, mHigh = h, mNumPixels = w * h, mNumChannels = n,
       mChannels = map (\<lambda>c. map (\<lambda>p. decode_sample (inBytes ! (p * n + c))) [0..<w * h]) [0..<n] \<rparr>"

text \<open>The byte the encoder leaves at offset \<open>j\<close>, with and without an alpha channel.\<close>

definition rgba_byte :: "Image \<Rightarrow> nat \<Rightarrow> byte" where
  "rgba_byte im j = encode_sample (mChannels im ! (j mod 4) ! (j div 4))"

definition rgb_byte :: "Image \<Rightarrow> nat \<Rightarrow> byte" where
  "rgb_byte im j = (if j mod 4 = 3 then 255 else encode_sample (mChannels im ! (j mod 4) ! (j div 4)))"

text \<open>Concrete images for the examples: the pixel of the spec's scenario, and two rows of two pixels.\<close>

definition half_quarter_pixel :: Image where
  "half_quarter_pixel =
     \<lparr> mWide = 1, mHigh = 1, mNumPixels = 1, mNumChannels = 4,
       mChannels = [[1 / 2], [1 / 4], [3 / 4], [1]] \<rparr>"

definition five_channel_row :: Image where
  "five_channel_row =
     \<lparr> mWide = 2, mHigh = 1, mNumPixels = 2, mNumChannels = 5,
       mChannels = [[0, 1], [1 / 2, 1 / 255], [1, 0], [1 / 4, 1], [7, 9]] \<rparr>"

definition three_channel_row :: Image where
  "three_channel_row =
     \<lparr> mWide = 2, mHigh = 1, mNumPixels = 2, mNumChannels = 3,
       mChannels = [[0, 1], [1 / 2, 1 / 255], [1, 0]] \<rparr>"

text \<open>The channels of the constructed image, in closed form.\<close>

definition rgba_channels :: "Image \<Rightarrow> double list list" where
  "rgba_channels inImage =
     map (\<lambda>c. if c < mNumChannels inImage then mChannels inImage ! c
               else replicate (mWide inImage * mHigh inImage) (if c = 3 then 1 else 0))
         [0..<4]"

definition gray_row :: Image where
  "gray_row =
     \<lparr> mWide = 2, mHigh = 1, mNumPixels = 2, mNumChannels = 1, mChannels = [[1 / 2, 1 / 4]] \<rparr>"

definition white_pixel :: Image where
  "white_pixel =
     \<lparr> mWide = 1, mHigh = 1, mNumPixels = 1, mNumChannels = 4,
       mChannels = [[1], [1], [1], [1]] \<rparr>"

section \<open>Loops and memory: basic facts\<close>

text \<open>The recursive equations of the exponent are unfolded by hand, never by default.\<close>

declare expo_hi.simps [simp del] expo_lo.simps [simp del]

lemma for_each_append:
  "for_each (xs @ ys) body s =
     (case for_each xs body s of None \<Rightarrow> None | Some s' \<Rightarrow> for_each ys body s')"
  by (induction xs arbitrary: s) (auto split: option.splits)

lemma for_each_upt_Suc:
  "for_each [0..<Suc n] body s =
     (case for_each [0..<n] body s of None \<Rightarrow> None | Some s' \<Rightarrow> body n s')"
  by (simp add: for_each_append split: option.splits)

lemma for_each_invariant:
  assumes init: "I 0 s"
    and step: "\<And>j t. j < n \<Longrightarrow> I j t \<Longrightarrow> \<exists>t'. body j t = Some t' \<and> I (Suc j) t'"
  shows "\<exists>s'. for_each [0..<n] body s = Some s' \<and> I n s'"
  using step
proof (induction n)
  case 0
  show ?case using init by simp
next
  case (Suc n)
  have "\<exists>s'. for_each [0..<n] body s = Some s' \<and> I n s'"
    by (rule Suc.IH) (simp add: Suc.prems)
  then obtain s' where s': "for_each [0..<n] body s = Some s'" "I n s'" by blast
  from Suc.prems[of n s'] s'(2) obtain t' where "body n s' = Some t'" "I (Suc n) t'" by auto
  with s'(1) show ?case by (simp only: for_each_upt_Suc) simp
qed

lemma for_each_cong_body:
  "(\<And>j t. j \<in> set js \<Longrightarrow> body j t = body' j t) \<Longrightarrow> for_each js body s = for_each js body' s"
  by (induction js arbitrary: s) (auto split: option.splits)

lemma store_sample_Some:
  "c < length chs \<Longrightarrow> i < length (chs ! c) \<Longrightarrow>
   store_sample chs c i v = Some (chs[c := (chs ! c)[i := v]])"
  by (simp add: store_sample_def load_def store_def)

lemma load_Some: "i < length xs \<Longrightarrow> load xs i = Some (xs ! i)"
  by (simp add: load_def)

lemma pixel_index_bound: "x < w \<Longrightarrow> y < h \<Longrightarrow> y * w + x < w * (h::nat)"
proof -
  assume x: "x < w" and y: "y < h"
  have "y * w + x < y * w + w" using x by simp
  also have "\<dots> = Suc y * w" by simp
  also have "\<dots> \<le> h * w" using y by (intro mult_le_mono1) simp
  finally show ?thesis by (simp add: mult.commute)
qed

lemma byte_index_bound: "k < P \<Longrightarrow> i < n \<Longrightarrow> k * n + i < P * (n::nat)"
  using pixel_index_bound[of i n k P] by (simp add: mult.commute)

lemma channel_step_partial:
  assumes "decoded_partial inBytes n P k i chs" "i < n" "k < P" "P * n \<le> length inBytes"
  shows "\<exists>chs'. channel_step inBytes k i (chs, k * n + i) = Some (chs', k * n + Suc i) \<and>
           decoded_partial inBytes n P k (Suc i) chs'"
proof -
  have len: "length chs = n" and lens: "\<And>c. c < n \<Longrightarrow> length (chs ! c) = P"
    using assms(1) by (simp_all add: decoded_partial_def)
  have rd: "k * n + i < length inBytes"
    using byte_index_bound[OF assms(3,2)] assms(4) by simp
  let ?v = "decode_sample (inBytes ! (k * n + i))"
  let ?chs = "chs[i := (chs ! i)[k := ?v]]"
  have step: "channel_step inBytes k i (chs, k * n + i) = Some (?chs, k * n + Suc i)"
    using rd len lens[OF assms(2)] assms(2,3)
    by (simp add: channel_step_def load_Some store_sample_Some)
  have "decoded_partial inBytes n P k (Suc i) ?chs"
    unfolding decoded_partial_def
  proof (intro conjI allI impI)
    show "length ?chs = n" using len by simp
  next
    fix c assume c: "c < n"
    show "length (?chs ! c) = P"
      using c len lens by (cases "c = i") simp_all
  next
    fix c p assume c: "c < n" and p: "p < k"
    have "chs ! c ! p = decode_sample (inBytes ! (p * n + c))"
      using assms(1) c p by (simp add: decoded_partial_def)
    then show "?chs ! c ! p = decode_sample (inBytes ! (p * n + c))"
      using c p len by (cases "c = i") simp_all
  next
    fix c assume c: "c < n" and ci: "c < Suc i"
    show "?chs ! c ! k = decode_sample (inBytes ! (k * n + c))"
    proof (cases "c = i")
      case True
      then show ?thesis using len lens[OF assms(2)] assms(2,3) by simp
    next
      case False
      then have "c < i" using ci by simp
      then have "chs ! c ! k = decode_sample (inBytes ! (k * n + c))"
        using assms(1) c by (simp add: decoded_partial_def)
      then show ?thesis using False len c by simp
    qed
  qed
  with step show ?thesis by blast
qed

lemma pixel_n_decoded:
  assumes "decoded_upto inBytes n P k chs" "k < P" "P * n \<le> length inBytes"
    and k: "k = y * w + x"
  shows "\<exists>chs'. pixel_n inBytes w n y y x chs = Some chs' \<and> decoded_upto inBytes n P (Suc k) chs'"
proof -
  let ?I = "\<lambda>i st. snd st = k * n + i \<and> decoded_partial inBytes n P k i (fst st)"
  have "\<exists>s'. for_each [0..<n] (channel_step inBytes k) (chs, k * n) = Some s' \<and> ?I n s'"
  proof (rule for_each_invariant[where I = ?I])
    show "?I 0 (chs, k * n)"
      using assms(1) by (simp add: decoded_upto_def decoded_partial_def)
  next
    fix j t assume j: "j < n" and I: "?I j t"
    obtain chs1 bi where t: "t = (chs1, bi)" by (cases t)
    from channel_step_partial[of inBytes n P k j chs1] I j assms(2,3) t
    show "\<exists>t'. channel_step inBytes k j t = Some t' \<and> ?I (Suc j) t'"
      by auto
  qed
  then obtain chs' bi where
    run: "for_each [0..<n] (channel_step inBytes k) (chs, k * n) = Some (chs', bi)"
    and part: "decoded_partial inBytes n P k n chs'"
    by auto
  have "decoded_upto inBytes n P (Suc k) chs'"
    using part by (auto simp: decoded_upto_def decoded_partial_def less_Suc_eq)
  moreover have "pixel_n inBytes w n y y x chs = Some chs'"
    using run by (simp add: pixel_n_def k)
  ultimately show ?thesis by blast
qed


lemma row_decoded:
  assumes "decoded_upto inBytes n (w * h) (y * w) chs" "y < h" "w * h * n \<le> length inBytes"
  shows "\<exists>chs'. for_each [0..<w] (pixel_n inBytes w n y y) chs = Some chs' \<and>
           decoded_upto inBytes n (w * h) (Suc y * w) chs'"
proof -
  let ?I = "\<lambda>x t. decoded_upto inBytes n (w * h) (y * w + x) t"
  have "\<exists>s'. for_each [0..<w] (pixel_n inBytes w n y y) chs = Some s' \<and> ?I w s'"
  proof (rule for_each_invariant[where I = ?I])
    show "?I 0 chs" using assms(1) by simp
  next
    fix x t assume x: "x < w" and I: "?I x t"
    have "y * w + x < w * h" using pixel_index_bound[OF x assms(2)] .
    from pixel_n_decoded[OF I this assms(3) refl]
    show "\<exists>t'. pixel_n inBytes w n y y x t = Some t' \<and> ?I (Suc x) t'" by simp
  qed
  then show ?thesis by (simp add: add.commute)
qed

lemma scan_rows_decoded:
  assumes "decoded_upto inBytes n (w * h) 0 chs" "w * h * n \<le> length inBytes"
  shows "\<exists>chs'. scan_rows (pixel_n inBytes w n) w h chs = Some chs' \<and>
           decoded_upto inBytes n (w * h) (w * h) chs'"
proof -
  let ?body = "\<lambda>y st. case st of (chs', outputRow) \<Rightarrow>
             map_option (\<lambda>chs''. (chs'', outputRow + 1))
               (for_each [0..<w] (pixel_n inBytes w n y outputRow) chs')"
  let ?I = "\<lambda>y st. snd st = y \<and> decoded_upto inBytes n (w * h) (y * w) (fst st)"
  have "\<exists>s'. for_each [0..<h] ?body (chs, 0) = Some s' \<and> ?I h s'"
  proof (rule for_each_invariant[where I = ?I])
    show "?I 0 (chs, 0)" using assms(1) by simp
  next
    fix y t assume y: "y < h" and I: "?I y t"
    obtain chs1 r where t: "t = (chs1, r)" by (cases t)
    from I t have r: "r = y" and d: "decoded_upto inBytes n (w * h) (y * w) chs1" by simp_all
    from row_decoded[OF d y assms(2)] obtain chs2 where
      "for_each [0..<w] (pixel_n inBytes w n y y) chs1 = Some chs2"
      "decoded_upto inBytes n (w * h) (Suc y * w) chs2" by blast
    then show "\<exists>t'. ?body y t = Some t' \<and> ?I (Suc y) t'" by (simp add: t r)
  qed
  then obtain s' where "for_each [0..<h] ?body (chs, 0) = Some s'" "?I h s'" by blast
  then show ?thesis by (simp add: scan_rows_def mult.commute)
qed

lemma decoded_all:
  assumes "decoded_upto inBytes n P P chs"
  shows "chs = map (\<lambda>c. map (\<lambda>p. decode_sample (inBytes ! (p * n + c))) [0..<P]) [0..<n]"
proof (rule nth_equalityI)
  show "length chs = length (map (\<lambda>c. map (\<lambda>p. decode_sample (inBytes ! (p * n + c))) [0..<P]) [0..<n])"
    using assms by (simp add: decoded_upto_def)
next
  fix c assume "c < length chs"
  then have c: "c < n" using assms by (simp add: decoded_upto_def)
  have "chs ! c = map (\<lambda>p. decode_sample (inBytes ! (p * n + c))) [0..<P]"
    using assms c by (intro nth_equalityI) (simp_all add: decoded_upto_def)
  then show "chs ! c = map (\<lambda>c. map (\<lambda>p. decode_sample (inBytes ! (p * n + c))) [0..<P]) [0..<n] ! c"
    using c by simp
qed

lemma new_Image_decoded_0:
  "decoded_upto inBytes n (w * h) 0 (mChannels (new_Image heap w h n z))"
  by (simp add: decoded_upto_def new_Image_def)

lemma getImageFromBytes_general_Some:
  assumes "w * h * n \<le> length inBytes"
  shows "getImageFromBytes_general heap inBytes w h n = Some (decoded_image inBytes w h n)"
proof -
  from scan_rows_decoded[OF new_Image_decoded_0 assms, of heap False]
  obtain chs' where run: "scan_rows (pixel_n inBytes w n) w h (mChannels (new_Image heap w h n False)) = Some chs'"
    and d: "decoded_upto inBytes n (w * h) (w * h) chs'" by blast
  show ?thesis
    using run decoded_all[OF d]
    by (simp add: getImageFromBytes_general_def decoded_image_def new_Image_def)
qed

lemma upt_3: "[0..<3] = [0, 1, 2]"
  by (simp add: upt_rec)

lemma upt_4: "[0..<4] = [0, 1, 2, 3]"
  by (simp add: upt_rec)

lemma add_3_Suc: "n + 3 = Suc (Suc (Suc n))"
  by simp

lemma channel_loop_Nil:
  "map_option fst (for_each [] (channel_step inBytes out) (chs, bi)) = Some chs"
  by simp

lemma channel_loop_Cons:
  "map_option fst (for_each (i # js) (channel_step inBytes out) (chs, bi)) =
     do { b \<leftarrow> load inBytes bi;
          chs' \<leftarrow> store_sample chs i out (decode_sample b);
          map_option fst (for_each js (channel_step inBytes out) (chs', bi + 1)) }"
  by (simp add: channel_step_def split: Option.bind_splits)

lemma pixel_3_eq_pixel_n: "pixel_3 inBytes w y r x chs = pixel_n inBytes w 3 y r x chs"
  by (simp add: pixel_3_def pixel_n_def upt_3 Let_def channel_loop_Cons channel_loop_Nil
      add_2_eq_Suc' add_3_Suc del: for_each.simps)

lemma pixel_4_eq_pixel_n: "pixel_4 inBytes w y r x chs = pixel_n inBytes w 4 y r x chs"
  by (simp add: pixel_4_def pixel_n_def upt_4 Let_def channel_loop_Cons channel_loop_Nil
      add_2_eq_Suc' add_3_Suc del: for_each.simps)

lemma getImageFromBytes_3_general:
  "getImageFromBytes_3 heap inBytes w h = getImageFromBytes_general heap inBytes w h 3"
proof -
  have "pixel_3 inBytes w = pixel_n inBytes w 3"
    by (intro ext) (rule pixel_3_eq_pixel_n)
  then show ?thesis by (simp add: getImageFromBytes_3_def getImageFromBytes_general_def)
qed

lemma getImageFromBytes_4_general:
  "getImageFromBytes_4 heap inBytes w h = getImageFromBytes_general heap inBytes w h 4"
proof -
  have "pixel_4 inBytes w = pixel_n inBytes w 4"
    by (intro ext) (rule pixel_4_eq_pixel_n)
  then show ?thesis by (simp add: getImageFromBytes_4_def getImageFromBytes_general_def)
qed

lemma getImageFromBytes_eq_general:
  "getImageFromBytes heap inBytes w h n = getImageFromBytes_general heap inBytes w h n"
  by (simp add: getImageFromBytes_def getImageFromBytes_3_general getImageFromBytes_4_general)

lemma getImageFromBytes_Some:
  assumes "w * h * n \<le> length inBytes"
  shows "getImageFromBytes heap inBytes w h n = Some (decoded_image inBytes w h n)"
  by (simp add: getImageFromBytes_eq_general getImageFromBytes_general_Some[OF assms])

lemma floor_rat_numeral_div [simp]:
  "\<lfloor>numeral a / numeral b :: rat\<rfloor> = numeral a div numeral b"
  by (metis floor_divide_of_int_eq of_int_numeral)

lemma decoded_image_sample:
  assumes "x < w" "y < h" "k < n"
  shows "sample_at (decoded_image inBytes w h n) k x y =
           decode_sample (inBytes ! ((y * w + x) * n + k))"
  using assms pixel_index_bound[OF assms(1,2)]
  by (simp add: sample_at_def decoded_image_def)

section \<open>Claims about the decoder\<close>

text \<open>
  C9: for every byte buffer, width and height, the unrolled three-channel and four-channel
  branches of the decoder give the very result (the same image, or the same undefined
  behaviour) that the general per-channel loop gives for three and for four channels;
  the first two conjuncts record that the decoder takes those branches.
\<close>

theorem fast_paths_agree_with_general_loop:
  "getImageFromBytes heap inBytes w h 3 = getImageFromBytes_3 heap inBytes w h \<and>
   getImageFromBytes heap inBytes w h 4 = getImageFromBytes_4 heap inBytes w h \<and>
   getImageFromBytes_3 heap inBytes w h = getImageFromBytes_general heap inBytes w h 3 \<and>
   getImageFromBytes_4 heap inBytes w h = getImageFromBytes_general heap inBytes w h 4"
  by (simp add: getImageFromBytes_def getImageFromBytes_3_general getImageFromBytes_4_general)

theorem fast_paths_agree_with_general_loop_witness:
  "getImageFromBytes_3 (\<lambda>c p. 7) [255, 0, 128] 1 1 =
     Some \<lparr>mWide = 1, mHigh = 1, mNumPixels = 1, mNumChannels = 3,
           mChannels = [[1125900013803115 / 1125899906842624], [0],
                        [282578826993723 / 562949953421312]]\<rparr> \<and>
   getImageFromBytes_general (\<lambda>c p. 7) [255, 0, 128] 1 1 3 =
     Some \<lparr>mWide = 1, mHigh = 1, mNumPixels = 1, mNumChannels = 3,
           mChannels = [[1125900013803115 / 1125899906842624], [0],
                        [282578826993723 / 562949953421312]]\<rparr>"
proof -
  have "getImageFromBytes_general (\<lambda>c p. 7) [255, 0, 128] 1 1 3 =
     Some \<lparr>mWide = 1, mHigh = 1, mNumPixels = 1, mNumChannels = 3,
           mChannels = [[1125900013803115 / 1125899906842624], [0],
                        [282578826993723 / 562949953421312]]\<rparr>"
    by code_simp
  then show ?thesis
    using fast_paths_agree_with_general_loop[of "\<lambda>c p. 7" "[255, 0, 128]" 1 1] by simp
qed

text \<open>
  C6: for a width, a height and a channel count that fit an \<^verbatim>\<open>int\<close> together with their
  products, on a buffer holding the \<open>w * h * n\<close> bytes of an image, the decoder returns an image
  of \<open>n\<close> channels in which channel \<open>k\<close> of the pixel in column \<open>x\<close> of row \<open>y\<close>, at linear
  index \<open>y * w + x\<close>, is the byte at offset \<open>(y * w + x) * n + k\<close> times the decoder's scale
  literal. In a
  2 by 1 image the bytes \<open>0..n-1\<close> feed pixel (0,0) and the bytes \<open>n..2n-1\<close> feed pixel (1,0);
  in a 1 by 2 image the two groups feed rows 0 and 1.
\<close>

theorem decoder_row_major:
  assumes "w \<le> INT_MAX" and "h \<le> INT_MAX" and "n \<le> INT_MAX"
    and "w * h \<le> INT_MAX" and "w * h * n \<le> INT_MAX"
    and buffer: "w * h * n \<le> length inBytes"
  shows "\<exists>im. getImageFromBytes heap inBytes w h n = Some im \<and>
           mWide im = w \<and> mHigh im = h \<and> mNumChannels im = n \<and>
           length (mChannels im) = n \<and>
           (\<forall>k<n. length (mChannels im ! k) = w * h) \<and>
           (\<forall>y<h. \<forall>x<w. \<forall>k<n.
              sample_at im k x y =
                dmul (byte_to_double (inBytes ! ((y * w + x) * n + k))) decode_scale) \<and>
           (w = 2 \<and> h = 1 \<longrightarrow>
              (\<forall>k<n. sample_at im k 0 0 = dmul (byte_to_double (inBytes ! k)) decode_scale \<and>
                     sample_at im k 1 0 =
                       dmul (byte_to_double (inBytes ! (n + k))) decode_scale)) \<and>
           (w = 1 \<and> h = 2 \<longrightarrow>
              (\<forall>k<n. sample_at im k 0 0 = dmul (byte_to_double (inBytes ! k)) decode_scale \<and>
                     sample_at im k 0 1 =
                       dmul (byte_to_double (inBytes ! (n + k))) decode_scale))"
proof -
  let ?im = "decoded_image inBytes w h n"
  have run: "getImageFromBytes heap inBytes w h n = Some ?im"
    by (rule getImageFromBytes_Some[OF buffer])
  have dims: "mWide ?im = w" "mHigh ?im = h" "mNumChannels ?im = n"
    "length (mChannels ?im) = n" "\<forall>k<n. length (mChannels ?im ! k) = w * h"
    by (simp_all add: decoded_image_def)
  have all: "\<forall>y<h. \<forall>x<w. \<forall>k<n.
      sample_at ?im k x y =
        dmul (byte_to_double (inBytes ! ((y * w + x) * n + k))) decode_scale"
    by (simp add: decoded_image_sample decode_sample_def)
  have two_one: "w = 2 \<and> h = 1 \<longrightarrow>
      (\<forall>k<n. sample_at ?im k 0 0 = dmul (byte_to_double (inBytes ! k)) decode_scale \<and>
             sample_at ?im k 1 0 = dmul (byte_to_double (inBytes ! (n + k))) decode_scale)"
    by (simp add: decoded_image_sample decode_sample_def)
  have one_two: "w = 1 \<and> h = 2 \<longrightarrow>
      (\<forall>k<n. sample_at ?im k 0 0 = dmul (byte_to_double (inBytes ! k)) decode_scale \<and>
             sample_at ?im k 0 1 = dmul (byte_to_double (inBytes ! (n + k))) decode_scale)"
    by (simp add: decoded_image_sample decode_sample_def)
  show ?thesis
    using run dims all two_one one_two by blast
qed

theorem decoder_row_major_witness:
  "(2::nat) \<le> INT_MAX \<and> (1::nat) \<le> INT_MAX \<and> (3::nat) \<le> INT_MAX \<and>
   (2::nat) * 1 \<le> INT_MAX \<and> (2::nat) * 1 * 3 \<le> INT_MAX \<and>
   2 * 1 * 3 \<le> length [10, 20, 30, 40, 50, 60 :: byte] \<and>
   map_option (\<lambda>im. (mWide im, mHigh im, sample_at im 1 0 0, sample_at im 1 1 0))
     (getImageFromBytes (\<lambda>c p. 7) [10, 20, 30, 40, 50, 60] 2 1 3) =
   Some (2, 1, 1412894134968615 / 18014398509481984, 7064470674843075 / 36028797018963968)"
proof -
  have size: "(2::nat) \<le> INT_MAX" "(1::nat) \<le> INT_MAX" "(3::nat) \<le> INT_MAX"
    "(2::nat) * 1 \<le> INT_MAX" "(2::nat) * 1 * 3 \<le> INT_MAX"
    by (simp_all add: INT_MAX_def)
  have len: "2 * 1 * 3 \<le> length [10, 20, 30, 40, 50, 60 :: byte]" by simp
  from decoder_row_major[OF size len, of "\<lambda>c p. 7"] obtain im where
    run: "getImageFromBytes (\<lambda>c p. 7) [10, 20, 30, 40, 50, 60] 2 1 3 = Some im"
    and dims: "mWide im = 2" "mHigh im = 1"
    and px: "\<forall>k<3. sample_at im k 0 0 =
                     dmul (byte_to_double ([10, 20, 30, 40, 50, 60] ! k)) decode_scale \<and>
                   sample_at im k 1 0 =
                     dmul (byte_to_double ([10, 20, 30, 40, 50, 60] ! (3 + k))) decode_scale"
    by auto
  from px have "sample_at im 1 0 0 = dmul (byte_to_double 20) decode_scale \<and>
      sample_at im 1 1 0 = dmul (byte_to_double 50) decode_scale"
    by simp
  moreover have "dmul (byte_to_double 20) decode_scale = 1412894134968615 / 18014398509481984"
    "dmul (byte_to_double 50) decode_scale = 7064470674843075 / 36028797018963968"
    by (simp_all add: byte_to_double_def decode_scale_def dmul_def fl_def fl_pos_def expo_def
        expo_hi.simps expo_lo.simps pow2_def rne_def Let_def)
  ultimately show ?thesis using run dims len size by simp
qed

section \<open>The encoder's loops\<close>

lemma store_Some: "i < length xs \<Longrightarrow> store xs i v = Some (xs[i := v])"
  by (simp add: store_def)

lemma quad_index:
  "Suc (4 * p) mod 4 = 1" "Suc (4 * p) div 4 = p"
  "Suc (Suc (4 * p)) mod 4 = 2" "Suc (Suc (4 * p)) div 4 = p"
  "(4 * p + 3) mod 4 = 3" "(4 * p + 3) div 4 = p"
  by presburger+

lemma quad_loop:
  assumes step: "\<And>p bytes. p < P \<Longrightarrow> length bytes = 4 * P \<Longrightarrow>
      body p (bytes, 4 * p) =
        Some (bytes[4 * p := f (4 * p), 4 * p + 1 := f (4 * p + 1),
                    4 * p + 2 := f (4 * p + 2), 4 * p + 3 := f (4 * p + 3)], 4 * p + 4)"
    and len: "length bytes0 = 4 * P"
  shows "map_option fst (for_each [0..<P] body (bytes0, 0)) = Some (map f [0..<4 * P])"
proof -
  let ?I = "\<lambda>p st. snd st = 4 * p \<and> length (fst st) = 4 * P \<and> (\<forall>j<4 * p. fst st ! j = f j)"
  have "\<exists>s'. for_each [0..<P] body (bytes0, 0) = Some s' \<and> ?I P s'"
  proof (rule for_each_invariant[where I = ?I])
    show "?I 0 (bytes0, 0)" using len by simp
  next
    fix p t assume p: "p < P" and I: "?I p t"
    obtain bytes i where t: "t = (bytes, i)" by (cases t)
    from I t have i: "i = 4 * p" and l: "length bytes = 4 * P"
      and old: "\<forall>j<4 * p. bytes ! j = f j" by simp_all
    let ?b = "bytes[4 * p := f (4 * p), 4 * p + 1 := f (4 * p + 1),
                    4 * p + 2 := f (4 * p + 2), 4 * p + 3 := f (4 * p + 3)]"
    have run: "body p t = Some (?b, 4 * p + 4)" using step[OF p l] by (simp add: t i)
    have "\<forall>j<4 * Suc p. ?b ! j = f j"
    proof (intro allI impI)
      fix j assume j: "j < 4 * Suc p"
      have inb: "4 * p + 3 < length bytes" using p l by simp
      consider "j < 4 * p" | "j = 4 * p" | "j = 4 * p + 1" | "j = 4 * p + 2" | "j = 4 * p + 3"
        using j by atomize_elim arith
      then show "?b ! j = f j"
      proof cases
        case 1 then show ?thesis using old by simp
      next
        case 2 then show ?thesis using inb by simp
      next
        case 3 then show ?thesis using inb by simp
      next
        case 4 then show ?thesis using inb by simp
      next
        case 5 then show ?thesis using inb by simp
      qed
    qed
    then have "?I (Suc p) (?b, 4 * p + 4)" using l by simp
    with run show "\<exists>t'. body p t = Some t' \<and> ?I (Suc p) t'" by blast
  qed
  then obtain bytes i where run: "for_each [0..<P] body (bytes0, 0) = Some (bytes, i)"
    and l: "length bytes = 4 * P" and all: "\<forall>j<4 * P. bytes ! j = f j" by auto
  have "bytes = map f [0..<4 * P]"
    using l all by (intro nth_equalityI) simp_all
  with run show ?thesis by simp
qed

lemma rgba_pixel_Some:
  assumes "p < length ch0" "p < length ch1" "p < length ch2" "p < length ch3"
    "i + 3 < length bytes"
  shows "rgba_pixel ch0 ch1 ch2 ch3 p (bytes, i) =
     Some (bytes[i := encode_sample (ch0 ! p), i + 1 := encode_sample (ch1 ! p),
                 i + 2 := encode_sample (ch2 ! p), i + 3 := encode_sample (ch3 ! p)], i + 4)"
  using assms by (simp add: rgba_pixel_def load_Some store_Some)

lemma rgb_pixel_Some:
  assumes "p < length ch0" "p < length ch1" "p < length ch2" "i + 3 < length bytes"
  shows "rgb_pixel ch0 ch1 ch2 p (bytes, i) =
     Some (bytes[i := encode_sample (ch0 ! p), i + 1 := encode_sample (ch1 ! p),
                 i + 2 := encode_sample (ch2 ! p), i + 3 := 255], i + 4)"
  using assms by (simp add: rgb_pixel_def load_Some store_Some)

lemma wf_Image_channel_length:
  "wf_Image im \<Longrightarrow> c < mNumChannels im \<Longrightarrow> length (mChannels im ! c) = mWide im * mHigh im"
  by (simp add: wf_Image_def list_all_length)

lemma wf_Image_getChannel:
  "wf_Image im \<Longrightarrow> c < mNumChannels im \<Longrightarrow> getChannel im c = Some (mChannels im ! c)"
  by (simp add: wf_Image_def getChannel_def load_Some)

lemma getRGBABytes_rgba:
  assumes wf: "wf_Image im" and n: "3 < mNumChannels im"
  shows "getRGBABytes mem im = Some (map (rgba_byte im) [0..<4 * (mWide im * mHigh im)])"
proof -
  let ?P = "mWide im * mHigh im"
  let ?ch = "\<lambda>c. mChannels im ! c"
  have ch: "getChannel im 0 = Some (?ch 0)" "getChannel im 1 = Some (?ch 1)"
    "getChannel im 2 = Some (?ch 2)" "getChannel im 3 = Some (?ch 3)"
    using wf n by (simp_all add: wf_Image_getChannel)
  have len: "length (?ch 0) = ?P" "length (?ch 1) = ?P" "length (?ch 2) = ?P"
    "length (?ch 3) = ?P"
    using wf n by (simp_all add: wf_Image_channel_length)
  have loop: "map_option fst
      (for_each [0..<?P] (rgba_pixel (?ch 0) (?ch 1) (?ch 2) (?ch 3))
         (map mem [0..<?P * 4], 0)) = Some (map (rgba_byte im) [0..<4 * ?P])"
  proof (rule quad_loop)
    fix p and bytes :: "byte list" assume "p < ?P" "length bytes = 4 * ?P"
    then show "rgba_pixel (?ch 0) (?ch 1) (?ch 2) (?ch 3) p (bytes, 4 * p) =
        Some (bytes[4 * p := rgba_byte im (4 * p), 4 * p + 1 := rgba_byte im (4 * p + 1),
                    4 * p + 2 := rgba_byte im (4 * p + 2),
                    4 * p + 3 := rgba_byte im (4 * p + 3)], 4 * p + 4)"
      using len by (simp add: rgba_pixel_Some rgba_byte_def quad_index)
  qed simp
  show ?thesis
    using n loop ch by (simp add: getRGBABytes_def Let_def)
qed

lemma getRGBABytes_rgb:
  assumes wf: "wf_Image im" and n: "mNumChannels im = 3"
  shows "getRGBABytes mem im = Some (map (rgb_byte im) [0..<4 * (mWide im * mHigh im)])"
proof -
  let ?P = "mWide im * mHigh im"
  let ?ch = "\<lambda>c. mChannels im ! c"
  have ch: "getChannel im 0 = Some (?ch 0)" "getChannel im 1 = Some (?ch 1)"
    "getChannel im 2 = Some (?ch 2)"
    using wf n by (simp_all add: wf_Image_getChannel)
  have len: "length (?ch 0) = ?P" "length (?ch 1) = ?P" "length (?ch 2) = ?P"
    using wf n by (simp_all add: wf_Image_channel_length)
  have loop: "map_option fst
      (for_each [0..<?P] (rgb_pixel (?ch 0) (?ch 1) (?ch 2))
         (map mem [0..<?P * 4], 0)) = Some (map (rgb_byte im) [0..<4 * ?P])"
  proof (rule quad_loop)
    fix p and bytes :: "byte list" assume "p < ?P" "length bytes = 4 * ?P"
    then show "rgb_pixel (?ch 0) (?ch 1) (?ch 2) p (bytes, 4 * p) =
        Some (bytes[4 * p := rgb_byte im (4 * p), 4 * p + 1 := rgb_byte im (4 * p + 1),
                    4 * p + 2 := rgb_byte im (4 * p + 2),
                    4 * p + 3 := rgb_byte im (4 * p + 3)], 4 * p + 4)"
      using len by (simp add: rgb_pixel_Some rgb_byte_def quad_index)
  qed simp
  show ?thesis
    using n loop ch by (simp add: getRGBABytes_def Let_def)
qed

section \<open>Rounding\<close>

lemma rne_cases: "rne x = \<lfloor>x\<rfloor> \<or> rne x = \<lfloor>x\<rfloor> + 1"
  by (simp add: rne_def Let_def)

lemma rne_nearest: "\<bar>of_int (rne x) - x\<bar> \<le> 1 / 2"
proof -
  have "of_int \<lfloor>x\<rfloor> \<le> x" "x < of_int \<lfloor>x\<rfloor> + 1" by linarith+
  then show ?thesis
    by (auto simp: rne_def Let_def abs_le_iff)
qed

lemma rne_le_int: "x \<le> of_int N \<Longrightarrow> rne x \<le> N"
proof -
  assume le: "x \<le> of_int N"
  show ?thesis
  proof (cases "x = of_int N")
    case True
    then show ?thesis by (simp add: rne_def)
  next
    case False
    with le have "x < of_int N" by simp
    then have "\<lfloor>x\<rfloor> < N" by (simp add: floor_less_iff)
    then show ?thesis using rne_cases[of x] by linarith
  qed
qed

lemma rne_ge_int: "of_int N \<le> x \<Longrightarrow> N \<le> rne x"
proof -
  assume "of_int N \<le> x"
  then have "N \<le> \<lfloor>x\<rfloor>" by (simp add: le_floor_iff)
  then show ?thesis using rne_cases[of x] by linarith
qed

lemma expo_hi_le: "x < 2 ^ Suc k \<Longrightarrow> expo_hi x \<le> int k"
proof (induction k arbitrary: x)
  case 0
  then show ?case by (subst expo_hi.simps) simp
next
  case (Suc k)
  show ?case
  proof (cases "x < 2")
    case True
    then show ?thesis by (subst expo_hi.simps) simp
  next
    case False
    have "x / 2 < 2 ^ Suc k" using Suc.prems by simp
    from Suc.IH[OF this] False show ?thesis by (subst expo_hi.simps) simp
  qed
qed

lemma expo_lo_le: "expo_lo x \<le> 0"
proof (induction x rule: expo_lo.induct)
  case (1 x)
  show ?case
  proof (cases "x \<le> 0 \<or> 1 \<le> x")
    case True
    then show ?thesis by (subst expo_lo.simps) simp
  next
    case False
    from "1.IH"[OF False] False show ?thesis by (subst expo_lo.simps) simp
  qed
qed

lemma expo_le_7: "x \<le> 255 \<Longrightarrow> expo x \<le> 7"
proof -
  assume "x \<le> 255"
  then have "x < 2 ^ Suc 7" by simp
  from expo_hi_le[OF this] expo_lo_le[of x] show ?thesis by (simp add: expo_def)
qed

lemma fl_pos_range:
  assumes "0 < x" "x \<le> 255"
  shows "0 \<le> fl_pos x \<and> fl_pos x \<le> 255"
proof -
  define e where "e = max (expo x) (- 1022) - 52"
  define m where "m = nat (- e)"
  have e: "e < 0" using expo_le_7[OF assms(2)] by (simp add: e_def)
  then have u: "pow2 e = 1 / 2 ^ m" by (simp add: pow2_def m_def)
  have "x / pow2 e = x * 2 ^ m" by (simp add: u)
  also have "\<dots> \<le> 255 * 2 ^ m" using assms(2) by simp
  also have "\<dots> = of_int (255 * 2 ^ m)" by simp
  finally have "rne (x / pow2 e) \<le> 255 * 2 ^ m" by (rule rne_le_int)
  then have "(of_int (rne (x / pow2 e)) :: rat) \<le> of_int (255 * 2 ^ m)"
    by (simp only: of_int_le_iff)
  then have "of_int (rne (x / pow2 e)) * (1 / 2 ^ m) \<le> (of_int (255 * 2 ^ m) :: rat) * (1 / 2 ^ m)"
    by (intro mult_right_mono) simp_all
  then have hi: "of_int (rne (x / pow2 e)) * pow2 e \<le> 255" by (simp add: u)
  have "(of_int 0 :: rat) \<le> x / pow2 e" using assms(1) by (simp add: u)
  then have "0 \<le> rne (x / pow2 e)" by (rule rne_ge_int)
  then have lo: "0 \<le> (of_int (rne (x / pow2 e)) :: rat) * pow2 e" by (simp add: u)
  show ?thesis using lo hi by (simp add: fl_pos_def Let_def e_def)
qed

lemma fl_range: "0 \<le> x \<Longrightarrow> x \<le> 255 \<Longrightarrow> 0 \<le> fl x \<and> fl x \<le> 255"
  using fl_pos_range[of x] by (cases "x = 0") (simp_all add: fl_def)

lemma lrint_scaled_range:
  assumes "0 \<le> s" "s \<le> 1"
  shows "0 \<le> lrint (dmul s 255) \<and> lrint (dmul s 255) \<le> 255"
proof -
  have "0 \<le> s * 255" "s * 255 \<le> 255" using assms by simp_all
  from fl_range[OF this] have r: "0 \<le> dmul s 255" "dmul s 255 \<le> 255"
    by (simp_all add: dmul_def)
  have "0 \<le> rne (dmul s 255)" using r(1) by (intro rne_ge_int) simp
  moreover have "rne (dmul s 255) \<le> 255" using r(2) by (intro rne_le_int) simp
  ultimately show ?thesis by (simp add: lrint_def)
qed

lemma uint_to_uchar: "0 \<le> l \<Longrightarrow> l \<le> 255 \<Longrightarrow> uint (to_uchar l) = l"
  by (simp add: to_uchar_def uint_word_of_int_eq take_bit_int_eq_self)

lemma encode_sample_normalized:
  "0 \<le> s \<Longrightarrow> s \<le> 1 \<Longrightarrow> uint (encode_sample s) = lrint (dmul s 255)"
  using lrint_scaled_range[of s] by (simp add: encode_sample_def uint_to_uchar)

lemma lrint_nearest: "\<bar>of_int (lrint x) - x\<bar> \<le> 1 / 2"
  using rne_nearest[of x] by (simp add: lrint_def)

lemma encode_sample_half: "encode_sample (1 / 2) = 128"
  by (simp add: encode_sample_def to_uchar_def lrint_def dmul_def fl_def fl_pos_def expo_def
      expo_hi.simps expo_lo.simps pow2_def rne_def Let_def)

lemma encode_sample_quarter: "encode_sample (1 / 4) = 64"
  by (simp add: encode_sample_def to_uchar_def lrint_def dmul_def fl_def fl_pos_def expo_def
      expo_hi.simps expo_lo.simps pow2_def rne_def Let_def)

lemma encode_sample_three_quarters: "encode_sample (3 / 4) = 191"
  by (simp add: encode_sample_def to_uchar_def lrint_def dmul_def fl_def fl_pos_def expo_def
      expo_hi.simps expo_lo.simps pow2_def rne_def Let_def)

lemma encode_sample_one: "encode_sample 1 = 255"
  by (simp add: encode_sample_def to_uchar_def lrint_def dmul_def fl_def fl_pos_def expo_def
      expo_hi.simps expo_lo.simps pow2_def rne_def Let_def)

lemma quad_index_lt: "k < 4 \<Longrightarrow> (4 * p + k) mod 4 = k \<and> (4 * p + k) div 4 = (p::nat)"
  by simp

lemma rgba_byte_at: "k < 4 \<Longrightarrow> rgba_byte im (4 * p + k) = encode_sample (mChannels im ! k ! p)"
  by (simp add: rgba_byte_def quad_index_lt)

lemma rgb_byte_at:
  "k < 3 \<Longrightarrow> rgb_byte im (4 * p + k) = encode_sample (mChannels im ! k ! p)"
  "rgb_byte im (4 * p + 3) = 255"
  by (simp_all add: rgb_byte_def quad_index_lt)

lemma rgba_byte_first_four:
  assumes "take 4 (mChannels im') = take 4 (mChannels im)"
  shows "rgba_byte im' j = rgba_byte im j"
proof -
  have "take 4 (mChannels im') ! (j mod 4) = mChannels im' ! (j mod 4)"
    "take 4 (mChannels im) ! (j mod 4) = mChannels im ! (j mod 4)"
    by simp_all
  then have "mChannels im' ! (j mod 4) = mChannels im ! (j mod 4)"
    by (simp only: assms)
  then show ?thesis by (simp only: rgba_byte_def)
qed

lemma half_quarter_pixel_bytes:
  "getRGBABytes mem half_quarter_pixel = Some [128, 64, 191, 255]"
proof -
  have "wf_Image half_quarter_pixel" "3 < mNumChannels half_quarter_pixel"
    by (simp_all add: wf_Image_def half_quarter_pixel_def)
  then have "getRGBABytes mem half_quarter_pixel =
      Some (map (rgba_byte half_quarter_pixel)
              [0..<4 * (mWide half_quarter_pixel * mHigh half_quarter_pixel)])"
    by (rule getRGBABytes_rgba)
  moreover have "map (rgba_byte half_quarter_pixel)
      [0..<4 * (mWide half_quarter_pixel * mHigh half_quarter_pixel)] = [128, 64, 191, 255]"
    by (simp add: half_quarter_pixel_def rgba_byte_def upt_4 encode_sample_half
        encode_sample_quarter encode_sample_three_quarters encode_sample_one)
  ultimately show ?thesis by simp
qed

lemma encode_sample_zero: "encode_sample 0 = 0"
  by (simp add: encode_sample_def to_uchar_def lrint_def dmul_def fl_def rne_def)

lemma encode_sample_255th: "encode_sample (1 / 255) = 1"
  by (simp add: encode_sample_def to_uchar_def lrint_def dmul_def fl_def fl_pos_def expo_def
      expo_hi.simps expo_lo.simps pow2_def rne_def Let_def)

lemma upt_8: "[0..<8] = [0, 1, 2, 3, 4, 5, 6, 7]"
  by (simp add: upt_rec)

lemma three_channel_row_bytes:
  "getRGBABytes mem three_channel_row = Some [0, 128, 255, 255, 255, 1, 0, 255]"
proof -
  have "wf_Image three_channel_row" "mNumChannels three_channel_row = 3"
    by (simp_all add: wf_Image_def three_channel_row_def)
  then have "getRGBABytes mem three_channel_row =
      Some (map (rgb_byte three_channel_row)
              [0..<4 * (mWide three_channel_row * mHigh three_channel_row)])"
    by (rule getRGBABytes_rgb)
  moreover have "map (rgb_byte three_channel_row)
      [0..<4 * (mWide three_channel_row * mHigh three_channel_row)] =
      [0, 128, 255, 255, 255, 1, 0, 255]"
    by (simp add: three_channel_row_def rgb_byte_def upt_8 encode_sample_zero
        encode_sample_half encode_sample_one encode_sample_255th)
  ultimately show ?thesis by simp
qed

section \<open>Claims about the encoder\<close>

text \<open>
  C3: for every image with at least four channels whose dimensions, channel count and byte
  count \<open>4 * w * h\<close> fit an \<^verbatim>\<open>int\<close>, byte \<open>4 * p + k\<close> of the encoder's output
  is the sample of channel \<open>k < 4\<close> at pixel \<open>p\<close> multiplied by 255, rounded by \<^verbatim>\<open>lrint\<close> and
  cast to a byte; \<^verbatim>\<open>lrint\<close> gives an integer within one half of its argument (rounding to
  nearest, not truncation), and for a normalized sample, between 0 and 1, the byte's value
  is that integer. An image that agrees on the first four channels encodes to the same
  bytes. The 1 by 1 image with channels 0.5, 0.25, 0.75, 1.0 encodes to 128, 64, 191, 255.
\<close>

theorem encoder_rounds_to_nearest:
  assumes wf: "wf_Image im" and four: "3 < mNumChannels im"
    and "mWide im \<le> INT_MAX" and "mHigh im \<le> INT_MAX" and "mNumChannels im \<le> INT_MAX"
    and "4 * (mWide im * mHigh im) \<le> INT_MAX"
  shows "\<exists>bytes. getRGBABytes mem im = Some bytes \<and>
           length bytes = 4 * (mWide im * mHigh im) \<and>
           (\<forall>p < mWide im * mHigh im. \<forall>k<4.
              bytes ! (4 * p + k) = to_uchar (lrint (dmul (mChannels im ! k ! p) 255)) \<and>
              \<bar>of_int (lrint (dmul (mChannels im ! k ! p) 255)) - dmul (mChannels im ! k ! p) 255\<bar>
                \<le> 1 / 2 \<and>
              (0 \<le> mChannels im ! k ! p \<and> mChannels im ! k ! p \<le> 1 \<longrightarrow>
                 uint (bytes ! (4 * p + k)) = lrint (dmul (mChannels im ! k ! p) 255))) \<and>
           (\<forall>im'. wf_Image im' \<and> 3 < mNumChannels im' \<and> mNumChannels im' \<le> INT_MAX \<and>
                  mWide im' = mWide im \<and>
                  mHigh im' = mHigh im \<and> take 4 (mChannels im') = take 4 (mChannels im) \<longrightarrow>
                  getRGBABytes mem im' = Some bytes) \<and>
           getRGBABytes mem half_quarter_pixel = Some [128, 64, 191, 255]"
proof -
  let ?P = "mWide im * mHigh im"
  let ?bytes = "map (rgba_byte im) [0..<4 * ?P]"
  have run: "getRGBABytes mem im = Some ?bytes"
    by (rule getRGBABytes_rgba[OF wf four])
  have at: "?bytes ! (4 * p + k) = encode_sample (mChannels im ! k ! p)"
    if "p < ?P" "k < 4" for p k :: nat
  proof -
    have "4 * p + k < 4 * ?P" using that by simp
    then show ?thesis using that(2) by (simp add: rgba_byte_at del: upt_Suc)
  qed
  have px: "\<forall>p < ?P. \<forall>k<4.
      ?bytes ! (4 * p + k) = to_uchar (lrint (dmul (mChannels im ! k ! p) 255)) \<and>
      \<bar>of_int (lrint (dmul (mChannels im ! k ! p) 255)) - dmul (mChannels im ! k ! p) 255\<bar>
        \<le> 1 / 2 \<and>
      (0 \<le> mChannels im ! k ! p \<and> mChannels im ! k ! p \<le> 1 \<longrightarrow>
         uint (?bytes ! (4 * p + k)) = lrint (dmul (mChannels im ! k ! p) 255))"
  proof (intro allI impI conjI)
    fix p k :: nat assume pk: "p < ?P" "k < 4"
    show "?bytes ! (4 * p + k) = to_uchar (lrint (dmul (mChannels im ! k ! p) 255))"
      using at[OF pk] by (simp only: encode_sample_def)
    show "\<bar>of_int (lrint (dmul (mChannels im ! k ! p) 255)) - dmul (mChannels im ! k ! p) 255\<bar>
        \<le> 1 / 2"
      by (rule lrint_nearest)
    assume "0 \<le> mChannels im ! k ! p \<and> mChannels im ! k ! p \<le> 1"
    then show "uint (?bytes ! (4 * p + k)) = lrint (dmul (mChannels im ! k ! p) 255)"
      using at[OF pk] by (simp only: encode_sample_normalized)
  qed
  have extra: "\<forall>im'. wf_Image im' \<and> 3 < mNumChannels im' \<and> mNumChannels im' \<le> INT_MAX \<and>
                  mWide im' = mWide im \<and>
      mHigh im' = mHigh im \<and> take 4 (mChannels im') = take 4 (mChannels im) \<longrightarrow>
      getRGBABytes mem im' = Some ?bytes"
  proof (intro allI impI)
    fix im'
    assume h: "wf_Image im' \<and> 3 < mNumChannels im' \<and> mNumChannels im' \<le> INT_MAX \<and>
                  mWide im' = mWide im \<and>
      mHigh im' = mHigh im \<and> take 4 (mChannels im') = take 4 (mChannels im)"
    then have "rgba_byte im' = rgba_byte im"
      by (intro ext rgba_byte_first_four) simp
    then show "getRGBABytes mem im' = Some ?bytes"
      using h by (simp add: getRGBABytes_rgba)
  qed
  have len: "length ?bytes = 4 * ?P" by simp
  show ?thesis
    using run len px extra half_quarter_pixel_bytes[of mem] by blast
qed

theorem encoder_rounds_to_nearest_witness:
  "wf_Image five_channel_row \<and> 3 < mNumChannels five_channel_row \<and>
   mWide five_channel_row \<le> INT_MAX \<and> mHigh five_channel_row \<le> INT_MAX \<and>
   mNumChannels five_channel_row \<le> INT_MAX \<and>
   4 * (mWide five_channel_row * mHigh five_channel_row) \<le> INT_MAX \<and>
   map_option (\<lambda>bytes. (length bytes, uint (bytes ! 5)))
     (getRGBABytes (\<lambda>a. 0) five_channel_row) = Some (8, 1)"
proof -
  have wf: "wf_Image five_channel_row" and n: "3 < mNumChannels five_channel_row"
    by (simp_all add: wf_Image_def five_channel_row_def)
  have size: "mWide five_channel_row \<le> INT_MAX" "mHigh five_channel_row \<le> INT_MAX"
    "mNumChannels five_channel_row \<le> INT_MAX"
    "4 * (mWide five_channel_row * mHigh five_channel_row) \<le> INT_MAX"
    by (simp_all add: INT_MAX_def five_channel_row_def)
  from encoder_rounds_to_nearest[OF wf n size, of "\<lambda>a. 0"] obtain bytes where
    run: "getRGBABytes (\<lambda>a. 0) five_channel_row = Some bytes"
    and len: "length bytes = 4 * (mWide five_channel_row * mHigh five_channel_row)"
    and px: "\<forall>p < mWide five_channel_row * mHigh five_channel_row. \<forall>k<4.
        bytes ! (4 * p + k) = to_uchar (lrint (dmul (mChannels five_channel_row ! k ! p) 255)) \<and>
        \<bar>of_int (lrint (dmul (mChannels five_channel_row ! k ! p) 255)) -
           dmul (mChannels five_channel_row ! k ! p) 255\<bar> \<le> 1 / 2 \<and>
        (0 \<le> mChannels five_channel_row ! k ! p \<and> mChannels five_channel_row ! k ! p \<le> 1 \<longrightarrow>
           uint (bytes ! (4 * p + k)) = lrint (dmul (mChannels five_channel_row ! k ! p) 255))"
    by blast
  have "(1::nat) < mWide five_channel_row * mHigh five_channel_row" "(1::nat) < 4"
    by (simp_all add: five_channel_row_def)
  with px have
    "0 \<le> mChannels five_channel_row ! 1 ! 1 \<and> mChannels five_channel_row ! 1 ! 1 \<le> 1 \<longrightarrow>
       uint (bytes ! (4 * 1 + 1)) = lrint (dmul (mChannels five_channel_row ! 1 ! 1) 255)"
    by blast
  then have "uint (bytes ! 5) = lrint (dmul (1 / 255) 255)"
    by (simp add: five_channel_row_def)
  also have "\<dots> = 1"
    by (simp add: lrint_def dmul_def fl_def fl_pos_def expo_def expo_hi.simps expo_lo.simps
        pow2_def rne_def Let_def)
  finally have b: "uint (bytes ! 5) = 1" .
  have "length bytes = 8" using len by (simp add: five_channel_row_def)
  with b show ?thesis using wf n size run by simp
qed

text \<open>
  C4: for every image with exactly three channels whose dimensions and byte count
  \<open>4 * w * h\<close> fit an \<^verbatim>\<open>int\<close>, byte \<open>4 * p + k\<close> of the encoder's output, for \<open>k < 3\<close>, is the
  sample of channel \<open>k\<close> at pixel \<open>p\<close> multiplied by 255, rounded by \<^verbatim>\<open>lrint\<close> and cast to a
  byte, as in the four-channel branch: \<^verbatim>\<open>lrint\<close> gives an integer within one half of its
  argument, and for a normalized sample the byte's value is that integer. The fourth byte of
  every pixel (offsets 3, 7, 11, ...) is the constant 255, whatever the samples are. The row
  of the two pixels (0, 0.5, 1) and (1, 1/255, 0) encodes to 0, 128, 255, 255, 255, 1, 0, 255.
\<close>

theorem encoder_default_alpha:
  assumes wf: "wf_Image im" and three: "mNumChannels im = 3"
    and "mWide im \<le> INT_MAX" and "mHigh im \<le> INT_MAX"
    and "4 * (mWide im * mHigh im) \<le> INT_MAX"
  shows "\<exists>bytes. getRGBABytes mem im = Some bytes \<and>
           length bytes = 4 * (mWide im * mHigh im) \<and>
           (\<forall>p < mWide im * mHigh im.
              (\<forall>k<3.
                 bytes ! (4 * p + k) = to_uchar (lrint (dmul (mChannels im ! k ! p) 255)) \<and>
                 \<bar>of_int (lrint (dmul (mChannels im ! k ! p) 255)) -
                    dmul (mChannels im ! k ! p) 255\<bar> \<le> 1 / 2 \<and>
                 (0 \<le> mChannels im ! k ! p \<and> mChannels im ! k ! p \<le> 1 \<longrightarrow>
                    uint (bytes ! (4 * p + k)) = lrint (dmul (mChannels im ! k ! p) 255))) \<and>
              bytes ! (4 * p + 3) = 255 \<and> uint (bytes ! (4 * p + 3)) = 255) \<and>
           getRGBABytes mem three_channel_row = Some [0, 128, 255, 255, 255, 1, 0, 255]"
proof -
  let ?P = "mWide im * mHigh im"
  let ?bytes = "map (rgb_byte im) [0..<4 * ?P]"
  have run: "getRGBABytes mem im = Some ?bytes"
    by (rule getRGBABytes_rgb[OF wf three])
  have len: "length ?bytes = 4 * ?P" by simp
  have at: "?bytes ! (4 * p + k) = encode_sample (mChannels im ! k ! p)"
    if "p < ?P" "k < 3" for p k :: nat
  proof -
    have "4 * p + k < 4 * ?P" using that by simp
    then show ?thesis using that(2) by (simp add: rgb_byte_at del: upt_Suc)
  qed
  have alpha: "?bytes ! (4 * p + 3) = 255" if "p < ?P" for p
  proof -
    have "4 * p + 3 < 4 * ?P" using that by simp
    then show ?thesis by (simp add: rgb_byte_at del: upt_Suc)
  qed
  have px: "\<forall>p < ?P.
      (\<forall>k<3.
         ?bytes ! (4 * p + k) = to_uchar (lrint (dmul (mChannels im ! k ! p) 255)) \<and>
         \<bar>of_int (lrint (dmul (mChannels im ! k ! p) 255)) -
            dmul (mChannels im ! k ! p) 255\<bar> \<le> 1 / 2 \<and>
         (0 \<le> mChannels im ! k ! p \<and> mChannels im ! k ! p \<le> 1 \<longrightarrow>
            uint (?bytes ! (4 * p + k)) = lrint (dmul (mChannels im ! k ! p) 255))) \<and>
      ?bytes ! (4 * p + 3) = 255 \<and> uint (?bytes ! (4 * p + 3)) = 255"
  proof (intro allI impI conjI)
    fix p k :: nat assume pk: "p < ?P" "k < 3"
    show "?bytes ! (4 * p + k) = to_uchar (lrint (dmul (mChannels im ! k ! p) 255))"
      using at[OF pk] by (simp only: encode_sample_def)
    show "\<bar>of_int (lrint (dmul (mChannels im ! k ! p) 255)) - dmul (mChannels im ! k ! p) 255\<bar>
        \<le> 1 / 2"
      by (rule lrint_nearest)
    assume "0 \<le> mChannels im ! k ! p \<and> mChannels im ! k ! p \<le> 1"
    then show "uint (?bytes ! (4 * p + k)) = lrint (dmul (mChannels im ! k ! p) 255)"
      using at[OF pk] by (simp only: encode_sample_normalized)
  next
    fix p assume p: "p < ?P"
    show "?bytes ! (4 * p + 3) = 255" by (rule alpha[OF p])
    show "uint (?bytes ! (4 * p + 3)) = 255" by (simp only: alpha[OF p]) simp
  qed
  show ?thesis
    using run len px three_channel_row_bytes[of mem] by blast
qed

theorem encoder_default_alpha_witness:
  "wf_Image three_channel_row \<and> mNumChannels three_channel_row = 3 \<and>
   mWide three_channel_row \<le> INT_MAX \<and> mHigh three_channel_row \<le> INT_MAX \<and>
   4 * (mWide three_channel_row * mHigh three_channel_row) \<le> INT_MAX \<and>
   map_option (\<lambda>bytes. (length bytes, uint (bytes ! 1), uint (bytes ! 3), uint (bytes ! 5),
                         uint (bytes ! 7)))
     (getRGBABytes (\<lambda>a. 0) three_channel_row) =
   Some (8, 128, 255, 1, 255)"
proof -
  have wf: "wf_Image three_channel_row" and n: "mNumChannels three_channel_row = 3"
    by (simp_all add: wf_Image_def three_channel_row_def)
  have size: "mWide three_channel_row \<le> INT_MAX" "mHigh three_channel_row \<le> INT_MAX"
    "4 * (mWide three_channel_row * mHigh three_channel_row) \<le> INT_MAX"
    by (simp_all add: INT_MAX_def three_channel_row_def)
  from encoder_default_alpha[OF wf n size, of "\<lambda>a. 0"] obtain bytes where
    run: "getRGBABytes (\<lambda>a. 0) three_channel_row = Some bytes"
    and len: "length bytes = 4 * (mWide three_channel_row * mHigh three_channel_row)"
    and px: "\<forall>p < mWide three_channel_row * mHigh three_channel_row.
        (\<forall>k<3.
           bytes ! (4 * p + k) =
             to_uchar (lrint (dmul (mChannels three_channel_row ! k ! p) 255)) \<and>
           \<bar>of_int (lrint (dmul (mChannels three_channel_row ! k ! p) 255)) -
              dmul (mChannels three_channel_row ! k ! p) 255\<bar> \<le> 1 / 2 \<and>
           (0 \<le> mChannels three_channel_row ! k ! p \<and> mChannels three_channel_row ! k ! p \<le> 1 \<longrightarrow>
              uint (bytes ! (4 * p + k)) =
                lrint (dmul (mChannels three_channel_row ! k ! p) 255))) \<and>
        bytes ! (4 * p + 3) = 255 \<and> uint (bytes ! (4 * p + 3)) = 255"
    by blast
  have P: "(0::nat) < mWide three_channel_row * mHigh three_channel_row"
    "(1::nat) < mWide three_channel_row * mHigh three_channel_row"
    by (simp_all add: three_channel_row_def)
  from px P(1) have a0: "uint (bytes ! (4 * 0 + 3)) = 255"
    and c0: "\<forall>k<3. 0 \<le> mChannels three_channel_row ! k ! 0 \<and>
                     mChannels three_channel_row ! k ! 0 \<le> 1 \<longrightarrow>
                uint (bytes ! (4 * 0 + k)) =
                  lrint (dmul (mChannels three_channel_row ! k ! 0) 255)"
    by blast+
  from px P(2) have a1: "uint (bytes ! (4 * 1 + 3)) = 255"
    and c1: "\<forall>k<3. 0 \<le> mChannels three_channel_row ! k ! 1 \<and>
                     mChannels three_channel_row ! k ! 1 \<le> 1 \<longrightarrow>
                uint (bytes ! (4 * 1 + k)) =
                  lrint (dmul (mChannels three_channel_row ! k ! 1) 255)"
    by blast+
  from c0[rule_format, of 1] have "uint (bytes ! 1) = lrint (dmul (1 / 2) 255)"
    by (simp add: three_channel_row_def)
  also have "\<dots> = 128"
    by (simp add: lrint_def dmul_def fl_def fl_pos_def expo_def expo_hi.simps expo_lo.simps
        pow2_def rne_def Let_def)
  finally have b1: "uint (bytes ! 1) = 128" .
  from c1[rule_format, of 1] have "uint (bytes ! 5) = lrint (dmul (1 / 255) 255)"
    by (simp add: three_channel_row_def)
  also have "\<dots> = 1"
    by (simp add: lrint_def dmul_def fl_def fl_pos_def expo_def expo_hi.simps expo_lo.simps
        pow2_def rne_def Let_def)
  finally have b5: "uint (bytes ! 5) = 1" .
  have "length bytes = 8" using len by (simp add: three_channel_row_def)
  with b1 b5 a0 a1 show ?thesis using wf n size run by simp
qed

text \<open>
  C10: the member \<^verbatim>\<open>getRGBABytes()\<close> returns what the static \<^verbatim>\<open>getRGBABytes( Image * )\<close>
  returns on the same image.
\<close>

theorem member_getRGBABytes_is_static:
  "getRGBABytes_member mem this = getRGBABytes mem this"
  by (simp add: getRGBABytes_member_def)

theorem member_getRGBABytes_is_static_witness:
  "getRGBABytes_member (\<lambda>a. 0) half_quarter_pixel = Some [128, 64, 191, 255] \<and>
   getRGBABytes (\<lambda>a. 0) half_quarter_pixel = Some [128, 64, 191, 255]"
  using member_getRGBABytes_is_static[of "\<lambda>a. 0" half_quarter_pixel]
    half_quarter_pixel_bytes[of "\<lambda>a. 0"]
  by simp

section \<open>The constructor's and the filter's loops\<close>

lemma fill_loop:
  assumes "length a = P"
  shows "for_each [0..<P] (\<lambda>i a. store a i v) a = Some (replicate P v)"
proof -
  let ?I = "\<lambda>i b. length b = P \<and> (\<forall>q<i. b ! q = v)"
  have "\<exists>s'. for_each [0..<P] (\<lambda>i a. store a i v) a = Some s' \<and> ?I P s'"
  proof (rule for_each_invariant[where I = ?I])
    show "?I 0 a" using assms by simp
  next
    fix j t assume j: "j < P" and I: "?I j t"
    then have "store t j v = Some (t[j := v])" by (simp add: store_Some)
    moreover have "?I (Suc j) (t[j := v])"
      using I j by (auto simp: nth_list_update less_Suc_eq)
    ultimately show "\<exists>t'. store t j v = Some t' \<and> ?I (Suc j) t'" by blast
  qed
  then obtain b where run: "for_each [0..<P] (\<lambda>i a. store a i v) a = Some b"
    and b: "length b = P" "\<forall>q<P. b ! q = v" by blast
  have "b = replicate P v" using b by (intro nth_equalityI) simp_all
  with run show ?thesis by simp
qed

lemma memcpy_whole:
  "length dst = n \<Longrightarrow> length src = n \<Longrightarrow> memcpy dst src n = Some src"
  by (simp add: memcpy_def)

lemma copy_channel_Some:
  assumes "wf_Image inImage" "c < mNumChannels inImage" "c < length chs"
    "length (chs ! c) = mWide inImage * mHigh inImage"
  shows "copy_channel inImage (mWide inImage * mHigh inImage) c chs =
           Some (chs[c := mChannels inImage ! c])"
  using assms
  by (simp add: copy_channel_def wf_Image_getChannel wf_Image_channel_length load_Some
      memcpy_whole store_Some)

lemma copy_loop:
  assumes wf: "wf_Image inImage" and m: "m \<le> mNumChannels inImage" "m \<le> length chs0"
    and len: "\<forall>c<length chs0. length (chs0 ! c) = mWide inImage * mHigh inImage"
  shows "for_each [0..<m] (copy_channel inImage (mWide inImage * mHigh inImage)) chs0 =
           Some (map (\<lambda>c. if c < m then mChannels inImage ! c else chs0 ! c) [0..<length chs0])"
proof -
  let ?P = "mWide inImage * mHigh inImage"
  let ?f = "\<lambda>j c. if c < j then mChannels inImage ! c else chs0 ! c"
  let ?I = "\<lambda>j chs. chs = map (?f j) [0..<length chs0]"
  have "\<exists>s'. for_each [0..<m] (copy_channel inImage ?P) chs0 = Some s' \<and> ?I m s'"
  proof (rule for_each_invariant[where I = ?I])
    show "?I 0 chs0" by (simp add: map_nth)
  next
    fix j t assume j: "j < m" and I: "?I j t"
    have lt: "length t = length chs0" using I by simp
    have tj: "t ! j = chs0 ! j" using I j m(2) by simp
    have "copy_channel inImage ?P j t = Some (t[j := mChannels inImage ! j])"
      using j m len lt tj by (intro copy_channel_Some[OF wf]) simp_all
    moreover have "t[j := mChannels inImage ! j] = map (?f (Suc j)) [0..<length chs0]"
    proof (rule nth_equalityI)
      show "length (t[j := mChannels inImage ! j]) = length (map (?f (Suc j)) [0..<length chs0])"
        using lt by simp
    next
      fix c assume "c < length (t[j := mChannels inImage ! j])"
      then have c: "c < length chs0" using lt by simp
      have "t ! c = ?f j c" using I c by simp
      then show "t[j := mChannels inImage ! j] ! c = map (?f (Suc j)) [0..<length chs0] ! c"
        using c lt by (cases "c = j") (simp_all add: less_Suc_eq)
    qed
    ultimately show "\<exists>t'. copy_channel inImage ?P j t = Some t' \<and> ?I (Suc j) t'" by simp
  qed
  then show ?thesis by simp
qed

lemma new_Image_channels:
  "length (mChannels (new_Image heap w h n z)) = n"
  "c < n \<Longrightarrow> length (mChannels (new_Image heap w h n z) ! c) = w * h"
  "c < n \<Longrightarrow> mChannels (new_Image heap w h n True) ! c = replicate (w * h) 0"
  by (simp_all add: new_Image_def map_replicate_const)

lemma RGBAImage_of_Image_Some:
  assumes wf: "wf_Image inImage"
  shows "RGBAImage_of_Image heap inImage =
     Some \<lparr> mWide = mWide inImage, mHigh = mHigh inImage,
            mNumPixels = mWide inImage * mHigh inImage, mNumChannels = 4,
            mChannels = rgba_channels inImage \<rparr>"
proof -
  let ?P = "mWide inImage * mHigh inImage"
  let ?n = "mNumChannels inImage"
  let ?fresh = "new_Image heap (mWide inImage) (mHigh inImage) 4 (?n < 4)"
  let ?m = "if ?n < 4 then ?n else 4"
  let ?copied = "map (\<lambda>c. if c < ?m then mChannels inImage ! c else mChannels ?fresh ! c) [0..<4]"
  have P: "mNumPixels ?fresh = ?P" by (simp add: new_Image_def)
  have copy: "for_each [0..<?m] (copy_channel inImage (mNumPixels ?fresh)) (mChannels ?fresh) =
      Some ?copied"
    using copy_loop[OF wf, of ?m "mChannels ?fresh"]
    by (simp add: P new_Image_channels)
  show ?thesis
  proof (cases "?n < 4")
    case True
    have alpha: "load ?copied 3 = Some (replicate ?P 0)"
      using True by (simp add: load_Some new_Image_channels)
    have fill: "for_each [0..<mNumPixels ?fresh] (\<lambda>i a. store a i 1) (replicate ?P 0) =
        Some (replicate ?P (1::double))"
      by (simp add: P fill_loop)
    have fin: "store ?copied 3 (replicate ?P 1) = Some (rgba_channels inImage)"
    proof -
      have "?copied[3 := replicate ?P 1] = rgba_channels inImage"
        using True
        by (intro nth_equalityI)
           (auto simp: rgba_channels_def nth_list_update new_Image_channels)
      then show ?thesis by (simp add: store_Some)
    qed
    show ?thesis
      using True copy alpha fill fin
      by (simp add: RGBAImage_of_Image_def Let_def new_Image_def)
  next
    case False
    have "?copied = rgba_channels inImage"
      using False by (intro nth_equalityI) (auto simp: rgba_channels_def)
    then show ?thesis
      using False copy
      by (simp add: RGBAImage_of_Image_def Let_def new_Image_def)
  qed
qed

lemma rgba_channels_wf:
  assumes "wf_Image inImage"
  shows "wf_Image \<lparr> mWide = mWide inImage, mHigh = mHigh inImage,
            mNumPixels = mWide inImage * mHigh inImage, mNumChannels = 4,
            mChannels = rgba_channels inImage \<rparr>"
  using assms
  by (auto simp: wf_Image_def rgba_channels_def list_all_length)

lemma Image_filter_Some:
  "c < length (mChannels im) \<Longrightarrow>
   Image_filter inFilter c im = Some (im\<lparr>mChannels := (mChannels im)[c := inFilter (mChannels im ! c)]\<rparr>)"
  by (simp add: Image_filter_def getChannel_def load_Some store_Some)

lemma filter_loop:
  assumes "m \<le> length (mChannels im)"
  shows "for_each [0..<m] (Image_filter inFilter) im =
     Some (im\<lparr>mChannels := map (\<lambda>c. if c < m then inFilter (mChannels im ! c) else mChannels im ! c)
                               [0..<length (mChannels im)]\<rparr>)"
proof -
  let ?f = "\<lambda>j c. if c < j then inFilter (mChannels im ! c) else mChannels im ! c"
  let ?I = "\<lambda>j t. t = im\<lparr>mChannels := map (?f j) [0..<length (mChannels im)]\<rparr>"
  have "\<exists>s'. for_each [0..<m] (Image_filter inFilter) im = Some s' \<and> ?I m s'"
  proof (rule for_each_invariant[where I = ?I])
    show "?I 0 im" by (simp add: map_nth)
  next
    fix j t assume j: "j < m" and I: "?I j t"
    have lt: "length (mChannels t) = length (mChannels im)" using I by simp
    have jl: "j < length (mChannels im)" using j assms by simp
    have tj: "mChannels t ! j = mChannels im ! j" using I jl by simp
    have run: "Image_filter inFilter j t =
        Some (t\<lparr>mChannels := (mChannels t)[j := inFilter (mChannels t ! j)]\<rparr>)"
      using jl lt by (simp add: Image_filter_Some)
    have "(mChannels t)[j := inFilter (mChannels t ! j)] =
        map (?f (Suc j)) [0..<length (mChannels im)]"
    proof (rule nth_equalityI)
      show "length ((mChannels t)[j := inFilter (mChannels t ! j)]) =
          length (map (?f (Suc j)) [0..<length (mChannels im)])"
        using lt by simp
    next
      fix c assume "c < length ((mChannels t)[j := inFilter (mChannels t ! j)])"
      then have c: "c < length (mChannels im)" using lt by simp
      have "mChannels t ! c = ?f j c" using I c by simp
      then show "(mChannels t)[j := inFilter (mChannels t ! j)] ! c =
          map (?f (Suc j)) [0..<length (mChannels im)] ! c"
        using c lt tj by (cases "c = j") (simp_all add: less_Suc_eq)
    qed
    then have "?I (Suc j) (t\<lparr>mChannels := (mChannels t)[j := inFilter (mChannels t ! j)]\<rparr>)"
      using I by simp
    with run show "\<exists>t'. Image_filter inFilter j t = Some t' \<and> ?I (Suc j) t'" by blast
  qed
  then show ?thesis by simp
qed

section \<open>Claims about the RGBA image\<close>

text \<open>
  C5: constructing an RGBA image from a source image of any channel count gives a
  four-channel image of the same size whose first \<open>min 4 n\<close> channels are the source's, sample
  for sample; when the source has fewer than four channels, channel 3 is 1.0 at every pixel
  and the colour channels the source lacks are 0.0; when it has four or more, the result is
  exactly its first four channels, channel 3 among them and the later ones dropped.
\<close>

theorem RGBAImage_of_Image_copies_and_pads:
  assumes "wf_Image inImage"
  shows "\<exists>im. RGBAImage_of_Image heap inImage = Some im \<and>
           wf_Image im \<and> mNumChannels im = 4 \<and>
           mWide im = mWide inImage \<and> mHigh im = mHigh inImage \<and>
           (\<forall>c < min 4 (mNumChannels inImage). mChannels im ! c = mChannels inImage ! c) \<and>
           (mNumChannels inImage < 4 \<longrightarrow>
              mChannels im ! 3 = replicate (mWide inImage * mHigh inImage) 1 \<and>
              (\<forall>c. mNumChannels inImage \<le> c \<and> c < 3 \<longrightarrow>
                 mChannels im ! c = replicate (mWide inImage * mHigh inImage) 0)) \<and>
           (4 \<le> mNumChannels inImage \<longrightarrow> mChannels im = take 4 (mChannels inImage))"
proof -
  let ?im = "\<lparr> mWide = mWide inImage, mHigh = mHigh inImage,
            mNumPixels = mWide inImage * mHigh inImage, mNumChannels = 4,
            mChannels = rgba_channels inImage \<rparr>"
  have run: "RGBAImage_of_Image heap inImage = Some ?im"
    by (rule RGBAImage_of_Image_Some[OF assms])
  have wf: "wf_Image ?im" by (rule rgba_channels_wf[OF assms])
  have copied: "\<forall>c < min 4 (mNumChannels inImage). mChannels ?im ! c = mChannels inImage ! c"
    by (simp add: rgba_channels_def)
  have padded: "mNumChannels inImage < 4 \<longrightarrow>
      mChannels ?im ! 3 = replicate (mWide inImage * mHigh inImage) 1 \<and>
      (\<forall>c. mNumChannels inImage \<le> c \<and> c < 3 \<longrightarrow>
         mChannels ?im ! c = replicate (mWide inImage * mHigh inImage) 0)"
    by (simp add: rgba_channels_def)
  have dropped: "4 \<le> mNumChannels inImage \<longrightarrow> mChannels ?im = take 4 (mChannels inImage)"
  proof
    assume n: "4 \<le> mNumChannels inImage"
    then have "length (mChannels inImage) \<ge> 4" using assms by (simp add: wf_Image_def)
    then have "rgba_channels inImage = take 4 (mChannels inImage)"
      using n by (intro nth_equalityI) (simp_all add: rgba_channels_def)
    then show "mChannels ?im = take 4 (mChannels inImage)" by simp
  qed
  have dims: "mNumChannels ?im = 4" "mWide ?im = mWide inImage" "mHigh ?im = mHigh inImage"
    by simp_all
  show ?thesis
    using run wf dims copied padded dropped by blast
qed

theorem RGBAImage_of_Image_copies_and_pads_witness:
  "wf_Image gray_row \<and>
   map_option (\<lambda>im. (mChannels im ! 0, mChannels im ! 1, mChannels im ! 2, mChannels im ! 3))
     (RGBAImage_of_Image (\<lambda>c p. 7) gray_row) =
     Some ([1 / 2, 1 / 4], [0, 0], [0, 0], [1, 1]) \<and>
   wf_Image five_channel_row \<and>
   map_option mChannels (RGBAImage_of_Image (\<lambda>c p. 7) five_channel_row) =
     Some [[0, 1], [1 / 2, 1 / 255], [1, 0], [1 / 4, 1]]"
proof -
  have wg: "wf_Image gray_row" and wfive: "wf_Image five_channel_row"
    by (simp_all add: wf_Image_def gray_row_def five_channel_row_def)
  from RGBAImage_of_Image_copies_and_pads[OF wg, of "\<lambda>c p. 7"] obtain im where
    run: "RGBAImage_of_Image (\<lambda>c p. 7) gray_row = Some im"
    and copied: "\<forall>c < min 4 (mNumChannels gray_row). mChannels im ! c = mChannels gray_row ! c"
    and padded: "mNumChannels gray_row < 4 \<longrightarrow>
      mChannels im ! 3 = replicate (mWide gray_row * mHigh gray_row) 1 \<and>
      (\<forall>c. mNumChannels gray_row \<le> c \<and> c < 3 \<longrightarrow>
         mChannels im ! c = replicate (mWide gray_row * mHigh gray_row) 0)"
    by blast
  have n: "mNumChannels gray_row = 1" "mWide gray_row * mHigh gray_row = 2"
    by (simp_all add: gray_row_def)
  from copied have c0: "mChannels im ! 0 = [1 / 2, 1 / 4]"
    by (simp add: gray_row_def)
  from padded n have c3: "mChannels im ! 3 = replicate 2 1"
    and pad: "\<forall>c. 1 \<le> c \<and> c < 3 \<longrightarrow> mChannels im ! c = replicate 2 0"
    by simp_all
  from pad have c1: "mChannels im ! 1 = replicate 2 0" and c2: "mChannels im ! 2 = replicate 2 0"
    by simp_all
  have gray: "map_option (\<lambda>im. (mChannels im ! 0, mChannels im ! 1, mChannels im ! 2, mChannels im ! 3))
     (RGBAImage_of_Image (\<lambda>c p. 7) gray_row) = Some ([1 / 2, 1 / 4], [0, 0], [0, 0], [1, 1])"
    using run c0 c1 c2 c3 by (simp add: numeral_2_eq_2)
  from RGBAImage_of_Image_copies_and_pads[OF wfive, of "\<lambda>c p. 7"] obtain im5 where
    run5: "RGBAImage_of_Image (\<lambda>c p. 7) five_channel_row = Some im5"
    and dropped: "4 \<le> mNumChannels five_channel_row \<longrightarrow>
      mChannels im5 = take 4 (mChannels five_channel_row)"
    by blast
  from dropped have "mChannels im5 = [[0, 1], [1 / 2, 1 / 255], [1, 0], [1 / 4, 1]]"
    by (simp add: five_channel_row_def)
  with run5 gray wg wfive show ?thesis by simp
qed

text \<open>
  C7: on a four-channel RGBA image, \<^verbatim>\<open>filter( inFilter )\<close> applies the filter to channels 0, 1
  and 2 and leaves channel 3, the alpha channel, as it was.
\<close>

theorem RGBAImage_filter_skips_alpha:
  assumes "wf_Image this" and "mNumChannels this = 4"
  shows "\<exists>im. RGBAImage_filter inFilter this = Some im \<and>
           mWide im = mWide this \<and> mHigh im = mHigh this \<and> mNumChannels im = 4 \<and>
           length (mChannels im) = 4 \<and>
           (\<forall>c<3. mChannels im ! c = inFilter (mChannels this ! c)) \<and>
           mChannels im ! 3 = mChannels this ! 3"
proof -
  have len: "length (mChannels this) = 4" using assms by (simp add: wf_Image_def)
  let ?im = "this\<lparr>mChannels := map (\<lambda>c. if c < 3 then inFilter (mChannels this ! c)
                                          else mChannels this ! c) [0..<4]\<rparr>"
  have "for_each [0..<3] (Image_filter inFilter) this = Some ?im"
    using filter_loop[of 3 this inFilter] len by simp
  then have run: "RGBAImage_filter inFilter this = Some ?im"
    by (simp add: RGBAImage_filter_def assms(2))
  have props: "mWide ?im = mWide this" "mHigh ?im = mHigh this" "mNumChannels ?im = 4"
    "length (mChannels ?im) = 4" "mChannels ?im ! 3 = mChannels this ! 3"
    "\<forall>c<3. mChannels ?im ! c = inFilter (mChannels this ! c)"
    using assms(2) by simp_all
  show ?thesis using run props by blast
qed

theorem RGBAImage_filter_skips_alpha_witness:
  "wf_Image half_quarter_pixel \<and> mNumChannels half_quarter_pixel = 4 \<and>
   map_option (\<lambda>im. (mChannels im ! 0, mChannels im ! 1, mChannels im ! 2, mChannels im ! 3))
     (RGBAImage_filter (map (\<lambda>s. s + 1)) half_quarter_pixel) =
   Some ([3 / 2], [5 / 4], [7 / 4], [1])"
proof -
  have wf: "wf_Image half_quarter_pixel" and n: "mNumChannels half_quarter_pixel = 4"
    by (simp_all add: wf_Image_def half_quarter_pixel_def)
  from RGBAImage_filter_skips_alpha[OF wf n, of "map (\<lambda>s. s + 1)"] obtain im where
    run: "RGBAImage_filter (map (\<lambda>s. s + 1)) half_quarter_pixel = Some im"
    and rgb: "\<forall>c<3. mChannels im ! c = map (\<lambda>s. s + 1) (mChannels half_quarter_pixel ! c)"
    and alpha: "mChannels im ! 3 = mChannels half_quarter_pixel ! 3"
    by blast
  from rgb[rule_format, of 0] rgb[rule_format, of 1] rgb[rule_format, of 2] alpha
  have "mChannels im ! 0 = [3 / 2]" "mChannels im ! 1 = [5 / 4]" "mChannels im ! 2 = [7 / 4]"
    "mChannels im ! 3 = [1]"
    by (simp_all add: half_quarter_pixel_def)
  with run wf n show ?thesis by simp
qed

section \<open>The decoder's scale constant\<close>

text \<open>
  The comment in the decoder reads \<^verbatim>\<open>divide by 255, with a multiply\<close>; the factor is the
  literal \<^verbatim>\<open>0.003921569\<close>, which is 1/255 cut to seven significant digits. The facts below
  evaluate the decoder's arithmetic on the bytes of the spec's scenario.
\<close>

lemmas fl_eval = dmul_def fl_def fl_pos_def expo_def expo_hi.simps expo_lo.simps pow2_def
  rne_def Let_def

lemma decode_scale_value: "decode_scale = 282578826993723 / 72057594037927936"
  by (simp add: decode_scale_def fl_eval)

lemma decode_sample_255: "decode_sample 255 = 1125900013803115 / 1125899906842624"
  by (simp add: decode_sample_def byte_to_double_def decode_scale_value fl_eval)

lemma decode_sample_128: "decode_sample 128 = 282578826993723 / 562949953421312"
  by (simp add: decode_sample_def byte_to_double_def decode_scale_value fl_eval)

lemma decode_sample_64: "decode_sample 64 = 282578826993723 / 1125899906842624"
  by (simp add: decode_sample_def byte_to_double_def decode_scale_value fl_eval)

lemma decode_sample_191: "decode_sample 191 = 6746569494475137 / 9007199254740992"
  by (simp add: decode_sample_def byte_to_double_def decode_scale_value fl_eval)

lemma decode_sample_0: "decode_sample 0 = 0"
  by (simp add: decode_sample_def byte_to_double_def fl_eval)

lemma fl_128_255: "fl (128 / 255) = 282578800148737 / 562949953421312"
  by (simp add: fl_eval)

lemma white_pixel_bytes: "getRGBABytes mem white_pixel = Some [255, 255, 255, 255]"
proof -
  have "wf_Image white_pixel" "3 < mNumChannels white_pixel"
    by (simp_all add: wf_Image_def white_pixel_def)
  then have "getRGBABytes mem white_pixel =
      Some (map (rgba_byte white_pixel) [0..<4 * (mWide white_pixel * mHigh white_pixel)])"
    by (rule getRGBABytes_rgba)
  moreover have "map (rgba_byte white_pixel)
      [0..<4 * (mWide white_pixel * mHigh white_pixel)] = [255, 255, 255, 255]"
    by (simp add: white_pixel_def rgba_byte_def upt_4 encode_sample_one)
  ultimately show ?thesis by simp
qed

lemma decode_scenario:
  "getImageFromBytes heap [128, 64, 191, 255] 1 1 4 =
     Some \<lparr> mWide = 1, mHigh = 1, mNumPixels = 1, mNumChannels = 4,
            mChannels = [[decode_sample 128], [decode_sample 64], [decode_sample 191],
                         [decode_sample 255]] \<rparr>"
proof -
  have "1 * 1 * 4 \<le> length [128, 64, 191, 255 :: byte]" by simp
  from getImageFromBytes_Some[OF this, of heap]
  show ?thesis by (simp add: decoded_image_def upt_4)
qed

lemma decode_white:
  "getImageFromBytes heap [255, 255, 255, 255] 1 1 4 =
     Some \<lparr> mWide = 1, mHigh = 1, mNumPixels = 1, mNumChannels = 4,
            mChannels = [[decode_sample 255], [decode_sample 255], [decode_sample 255],
                         [decode_sample 255]] \<rparr>"
proof -
  have "1 * 1 * 4 \<le> length [255, 255, 255, 255 :: byte]" by simp
  from getImageFromBytes_Some[OF this, of heap]
  show ?thesis by (simp add: decoded_image_def upt_4)
qed

text \<open>
  C1 (decoding the encoding of an image whose samples are multiples of 1/255 gives the image
  back): evaluated on the 1 by 1 image whose four samples are 255/255 = 1.0. The encoder
  gives the bytes 255, 255, 255, 255; the decoder turns each into
  \<open>1125900013803115 / 1125899906842624\<close>, about 1.000000095, so the decoded image is not the
  original.
\<close>

theorem round_trip_of_white_pixel_is_not_white:
  "getRGBABytes (\<lambda>a. 0) white_pixel = Some [255, 255, 255, 255] \<and>
   getImageFromBytes (\<lambda>c p. 0) [255, 255, 255, 255] 1 1 4 =
     Some (white_pixel\<lparr>mChannels :=
       [[1125900013803115 / 1125899906842624], [1125900013803115 / 1125899906842624],
        [1125900013803115 / 1125899906842624], [1125900013803115 / 1125899906842624]]\<rparr>) \<and>
   getImageFromBytes (\<lambda>c p. 0) [255, 255, 255, 255] 1 1 4 \<noteq> Some white_pixel"
  using white_pixel_bytes[of "\<lambda>a. 0"] decode_white[of "\<lambda>c p. 0"]
  by (simp add: decode_sample_255 white_pixel_def)

text \<open>
  C2 (every decoded sample is the byte divided by 255.0 exactly): evaluated on the spec's
  scenario, the pixel 128, 64, 191, 255 decoded with four channels. The samples are the
  bytes times the literal, rounded; none of them is the byte over 255, neither as a
  rational number nor as the double nearest to it.
\<close>

theorem decoded_scenario_samples_are_not_byte_over_255:
  "map_option mChannels (getImageFromBytes (\<lambda>c p. 0) [128, 64, 191, 255] 1 1 4) =
     Some [[282578826993723 / 562949953421312], [282578826993723 / 1125899906842624],
           [6746569494475137 / 9007199254740992], [1125900013803115 / 1125899906842624]] \<and>
   map_option mChannels (getImageFromBytes (\<lambda>c p. 0) [128, 64, 191, 255] 1 1 4) \<noteq>
     Some [[128 / 255], [64 / 255], [191 / 255], [1]] \<and>
   decode_sample 128 \<noteq> fl (128 / 255) \<and> decode_sample 255 \<noteq> fl (255 / 255)"
  using decode_scenario[of "\<lambda>c p. 0"]
  by (simp add: decode_sample_255 decode_sample_128 decode_sample_64
      decode_sample_191 fl_128_255) (simp add: fl_eval)

text \<open>
  C8 (every decoded sample lies in the interval from 0.0 to 1.0, byte 255 giving 1.0):
  evaluated on a pixel of bytes 255. The decoded sample is greater than 1; byte 0 does
  give 0.
\<close>

theorem decoded_byte_255_exceeds_one:
  "map_option (\<lambda>im. mChannels im ! 0 ! 0) (getImageFromBytes (\<lambda>c p. 0) [255, 255, 255, 255] 1 1 4) =
     Some (1125900013803115 / 1125899906842624) \<and>
   1 < decode_sample 255 \<and> decode_sample 255 \<noteq> 1 \<and> decode_sample 0 = 0"
  using decode_white[of "\<lambda>c p. 0"]
  by (simp add: decode_sample_255 decode_sample_0)

end
